theory Spec2Isabelle
  imports Main "HOL-Library.Multiset"
begin

section \<open>Cards and the deck (App.jsx, lines 10-38)\<close>

text \<open>
  The four suits and the nine ranks of the 36-card deck. The source keeps them as the
  string arrays \<open>SUITS\<close> (clubs, diamonds, hearts, spades) and \<open>RANKS\<close> (low to high);
  every card of the program is built by \<open>makeDeck\<close> from these two arrays, so both are
  enumerations here.
\<close>

datatype suit = Clubs | Diamonds | Hearts | Spades

datatype rank = R6 | R7 | R8 | R9 | R10 | RJ | RQ | RK | RA

definition SUITS :: "suit list" where
  "SUITS = [Clubs, Diamonds, Hearts, Spades]"

definition RANKS :: "rank list" where
  "RANKS = [R6, R7, R8, R9, R10, RJ, RQ, RK, RA]"

text \<open>
  A card is \<open>{ suit, rank, id }\<close> with \<open>id\<close> the template string of rank and suit. The
  string is determined by the two other fields and determines them, so the identifier is
  the pair below and is not stored.
\<close>

record card =
  suit :: suit
  rank :: rank

definition card_id :: "card \<Rightarrow> rank \<times> suit" where
  "card_id c = (rank c, suit c)"

definition makeDeck :: "card list" where
  "makeDeck = concat (map (\<lambda>s. map (\<lambda>r. \<lparr>suit = s, rank = r\<rparr>) RANKS) SUITS)"

text \<open>\<open>Array.prototype.indexOf\<close>: the first position of the element, or \<open>-1\<close>.\<close>

fun indexOf :: "'a list \<Rightarrow> 'a \<Rightarrow> int" where
  "indexOf [] x = -1"
| "indexOf (y # ys) x =
     (if y = x then 0 else (let k = indexOf ys x in if k < 0 then -1 else k + 1))"

definition rankValue :: "rank \<Rightarrow> int" where
  "rankValue r = indexOf RANKS r"

text \<open>
  \<open>shuffle\<close> is Fisher-Yates on a copy of the array. The source takes
  \<open>j = Math.floor(Math.random() * (i + 1))\<close>; the model takes the index chosen at
  position \<open>i\<close> from the parameter \<open>pick\<close>, and the random source guarantees
  \<open>pick i \<le> i\<close>. The destructuring swap reads both cells before it writes.
\<close>

fun shuffleLoop :: "(nat \<Rightarrow> nat) \<Rightarrow> nat \<Rightarrow> 'a list \<Rightarrow> 'a list" where
  "shuffleLoop pick 0 a = a"
| "shuffleLoop pick (Suc k) a =
     (let i = Suc k; j = pick i in shuffleLoop pick k (a[i := a ! j, j := a ! i]))"

definition shuffle :: "(nat \<Rightarrow> nat) \<Rightarrow> 'a list \<Rightarrow> 'a list" where
  "shuffle pick arr = shuffleLoop pick (length arr - 1) arr"

section \<open>Players and the first attacker (lines 40-51)\<close>

text \<open>
  A player object is \<open>{ id, name, hand }\<close>; the display name is only read by the log
  and the rendering, and is left out.
\<close>

record player =
  pid :: nat
  hand :: "card list"

record candidate =
  playerIndex :: nat
  cand_card :: card

text \<open>
  The body of the \<open>forEach\<close> callback of \<open>findFirstAttacker\<close>: the player's trumps,
  sorted by rank value (the sort of the source is stable, as \<open>sort_key\<close> is), and the
  comparison with the best candidate so far (\<open>null\<close> at the start).
\<close>

definition considerPlayer :: "suit \<Rightarrow> nat \<Rightarrow> player \<Rightarrow> candidate option \<Rightarrow> candidate option" where
  "considerPlayer t pi p best =
     (let trumps = sort_key (\<lambda>c. rankValue (rank c)) (filter (\<lambda>c. suit c = t) (hand p)) in
      case trumps of
        [] \<Rightarrow> best
      | c0 # _ \<Rightarrow>
          (let cand = \<lparr>playerIndex = pi, cand_card = c0\<rparr> in
           case best of
             None \<Rightarrow> Some cand
           | Some b \<Rightarrow>
               if rankValue (rank (cand_card cand)) < rankValue (rank (cand_card b))
               then Some cand else best))"

fun firstLoop :: "suit \<Rightarrow> nat \<Rightarrow> player list \<Rightarrow> candidate option \<Rightarrow> candidate option" where
  "firstLoop t pi [] best = best"
| "firstLoop t pi (p # ps) best = firstLoop t (Suc pi) ps (considerPlayer t pi p best)"

definition findFirstAttacker :: "player list \<Rightarrow> suit \<Rightarrow> nat" where
  "findFirstAttacker ps t =
     (case firstLoop t 0 ps None of None \<Rightarrow> 0 | Some b \<Rightarrow> playerIndex b)"

section \<open>The game state (lines 87-96)\<close>

text \<open>
  A table entry is \<open>{ attack, defend, by }\<close> with \<open>defend\<close> a card or \<open>null\<close>.
\<close>

record pair =
  attack :: card
  defend :: "card option"
  by_player :: nat

datatype phase = Attack | Defend | Cleanup | Finished

record game_state =
  players :: "player list"
  deck :: "card list"
  trump :: suit
  table :: "pair list"
  attacker :: nat
  defender :: nat
  phase :: phase
  maxAdds :: int

text \<open>
  What a handler can do other than install a new state: return without calling
  \<open>setGame\<close>, return after an \<open>alert\<close>, or throw the \<open>TypeError\<close> of reading a property
  of \<open>undefined\<close>. In all three the state held by the component stays as it was.
\<close>

datatype error = Ignored | Alert string | TypeError

section \<open>Dealing (lines 69-101)\<close>

text \<open>
  \<open>deck.pop()\<close> takes the last element of the array. One pass of the inner loop of
  \<open>newGame\<close> gives one card to each player in index order. A \<open>pop\<close> of the empty array
  yields \<open>undefined\<close> and leaves the deck empty, so that the later
  \<open>trumpCard.suit\<close> throws: the model returns \<open>None\<close> at once.
\<close>

fun dealRow :: "nat list \<Rightarrow> player list \<Rightarrow> card list \<Rightarrow> (player list \<times> card list) option" where
  "dealRow [] ps dk = Some (ps, dk)"
| "dealRow (p # rest) ps dk =
     (if dk = [] then None
      else dealRow rest (ps[p := (ps ! p)\<lparr>hand := hand (ps ! p) @ [last dk]\<rparr>]) (butlast dk))"

fun dealLoop :: "nat \<Rightarrow> nat \<Rightarrow> player list \<Rightarrow> card list \<Rightarrow> (player list \<times> card list) option" where
  "dealLoop 0 n ps dk = Some (ps, dk)"
| "dealLoop (Suc k) n ps dk =
     (case dealRow [0..<n] ps dk of
        None \<Rightarrow> None
      | Some (ps', dk') \<Rightarrow> dealLoop k n ps' dk')"

text \<open>
  \<open>newGame\<close> for \<open>numPlayers\<close> players (2, 3 or 4: the options of the selector) and the
  choices \<open>pick\<close> of the shuffle. The trump card is popped from the end of the deck and
  put back with \<open>unshift\<close>, that is at index 0.
\<close>

definition newGame :: "nat \<Rightarrow> (nat \<Rightarrow> nat) \<Rightarrow> error + game_state" where
  "newGame numPlayers pick =
     (let deck0 = shuffle pick makeDeck;
          players0 = map (\<lambda>i. \<lparr>pid = i, hand = []\<rparr>) [0..<numPlayers]
      in case dealLoop 8 numPlayers players0 deck0 of
           None \<Rightarrow> Inl TypeError
         | Some (ps, dk) \<Rightarrow>
             if dk = [] then Inl TypeError
             else
               (let trumpCard = last dk;
                    t = suit trumpCard;
                    dk' = trumpCard # butlast dk;
                    first = findFirstAttacker ps t
                in Inr \<lparr>players = ps, deck = dk', trump = t, table = [],
                         attacker = first, defender = (first + 1) mod numPlayers,
                         phase = Attack, maxAdds = 0\<rparr>))"

section \<open>Refill and the end of the game (lines 103-116, 243-253)\<close>

text \<open>
  The \<open>while\<close> loop of \<open>drawToFill\<close> on one hand: one card at a time from the end of
  the deck, while the hand has fewer than 8 cards and the deck is not empty.
\<close>

function drawWhile :: "card list \<Rightarrow> card list \<Rightarrow> card list \<times> card list" where
  "drawWhile h dk =
     (if length h < 8 \<and> dk \<noteq> [] then drawWhile (h @ [last dk]) (butlast dk) else (h, dk))"
  by pat_completeness auto
termination
  by (relation "measure (\<lambda>(h, dk). length dk)") auto

declare drawWhile.simps [simp del]

definition fillHand :: "nat \<Rightarrow> game_state \<Rightarrow> game_state" where
  "fillHand pIndex s =
     (let p = players s ! pIndex;
          r = drawWhile (hand p) (deck s)
      in s\<lparr>players := (players s)[pIndex := p\<lparr>hand := fst r\<rparr>], deck := snd r\<rparr>)"

text \<open>
  The \<open>for\<close> loop of \<open>drawToFill\<close> over \<open>offset\<close>; the index
  \<open>(attacker + offset) % players.length\<close> is always a valid one.
\<close>

function fillLoop :: "nat \<Rightarrow> game_state \<Rightarrow> game_state" where
  "fillLoop offset s =
     (if offset < length (players s)
      then fillLoop (Suc offset) (fillHand ((attacker s + offset) mod length (players s)) s)
      else s)"
  by pat_completeness auto
termination
  by (relation "measure (\<lambda>(offset, s). length (players s) - offset)")
     (auto simp: fillHand_def Let_def)

declare fillLoop.simps [simp del]

definition drawToFill :: "game_state \<Rightarrow> game_state" where
  "drawToFill s = fillLoop 0 s"

definition checkForFinish :: "game_state \<Rightarrow> game_state" where
  "checkForFinish s =
     (if filter (\<lambda>p. hand p = [] \<and> deck s = []) (players s) \<noteq> []
      then s\<lparr>phase := Finished\<rparr> else s)"

section \<open>The actions (lines 118-235)\<close>

definition canBeat :: "card \<Rightarrow> card option \<Rightarrow> suit \<Rightarrow> bool" where
  "canBeat attackCard defendCard t =
     (case defendCard of
        None \<Rightarrow> False
      | Some d \<Rightarrow>
          if suit attackCard = suit d then rankValue (rank d) > rankValue (rank attackCard)
          else suit d = t)"

text \<open>\<open>findIndex\<close> (\<open>None\<close> for \<open>-1\<close>) and \<open>splice(idx, 1)\<close>.\<close>

fun findIndex :: "('a \<Rightarrow> bool) \<Rightarrow> 'a list \<Rightarrow> nat option" where
  "findIndex P [] = None"
| "findIndex P (x # xs) = (if P x then Some 0 else map_option Suc (findIndex P xs))"

definition splice1 :: "nat \<Rightarrow> 'a list \<Rightarrow> 'a list" where
  "splice1 idx xs = take idx xs @ drop (Suc idx) xs"

definition setHand :: "nat \<Rightarrow> card list \<Rightarrow> player list \<Rightarrow> player list" where
  "setHand i h ps = ps[i := (ps ! i)\<lparr>hand := h\<rparr>]"

definition playAttack :: "game_state \<Rightarrow> nat \<Rightarrow> card \<Rightarrow> error + game_state" where
  "playAttack game pIdx c =
     (if attacker game \<noteq> pIdx then Inl Ignored
      else if length (players game) \<le> pIdx then Inl TypeError
      else
        (let h = hand (players game ! pIdx) in
         case findIndex (\<lambda>x. card_id x = card_id c) h of
           None \<Rightarrow> Inl Ignored
         | Some idx \<Rightarrow>
             (let ps = setHand pIdx (splice1 idx h) (players game);
                  tbl = table game @ [\<lparr>attack = c, defend = None, by_player = pIdx\<rparr>]
              in if length ps \<le> defender game then Inl TypeError
                 else Inr (game\<lparr>players := ps, table := tbl, phase := Defend,
                             maxAdds := min (int (length (hand (ps ! defender game))))
                                            (8 - int (length tbl))\<rparr>))))"

text \<open>
  \<open>playDefend\<close> up to the point where the defend card lies on the table
  (lines 145-162) ...
\<close>

definition defendStep :: "game_state \<Rightarrow> nat \<Rightarrow> nat \<Rightarrow> card \<Rightarrow> error + game_state" where
  "defendStep game pIdx attackIndex c =
     (if defender game \<noteq> pIdx then Inl Ignored
      else if length (table game) \<le> attackIndex then Inl Ignored
      else
        (let attPair = table game ! attackIndex in
         if defend attPair \<noteq> None then Inl Ignored
         else if length (players game) \<le> pIdx then Inl TypeError
         else
           (let h = hand (players game ! pIdx) in
            case findIndex (\<lambda>x. card_id x = card_id c) h of
              None \<Rightarrow> Inl Ignored
            | Some idx \<Rightarrow>
                if \<not> canBeat (attack attPair) (Some c) (trump game)
                then Inl (Alert ''Cannot beat that card'')
                else Inr (game\<lparr>players := setHand pIdx (splice1 idx h) (players game),
                                table := (table game)[attackIndex := attPair\<lparr>defend := Some c\<rparr>]\<rparr>))))"

text \<open>... the test \<open>allDefended\<close> (line 165) ...\<close>

definition allDefended :: "game_state \<Rightarrow> bool" where
  "allDefended s = list_all (\<lambda>p. defend p \<noteq> None) (table s)"

text \<open>
  ... and the resolution of the round (lines 166-179): the table is dropped, the
  defender becomes the attacker, the hands are refilled and the end is checked.
\<close>

definition resolveRound :: "game_state \<Rightarrow> game_state" where
  "resolveRound s =
     (let s1 = s\<lparr>table := [], attacker := defender s\<rparr>;
          s2 = s1\<lparr>defender := (attacker s1 + 1) mod length (players s1), phase := Cleanup\<rparr>;
          after = (drawToFill s2)\<lparr>phase := Attack\<rparr>
      in checkForFinish after)"

definition playDefend :: "game_state \<Rightarrow> nat \<Rightarrow> nat \<Rightarrow> card \<Rightarrow> error + game_state" where
  "playDefend game pIdx attackIndex c =
     (case defendStep game pIdx attackIndex c of
        Inl e \<Rightarrow> Inl e
      | Inr s \<Rightarrow> if allDefended s then Inr (resolveRound s) else Inr s)"

text \<open>
  The ranks on the table (line 196), as a list: the attack rank of every pair and the
  defend rank where there is one.
\<close>

definition ranksOnTable :: "pair list \<Rightarrow> rank list" where
  "ranksOnTable tbl =
     concat (map (\<lambda>t. rank (attack t) # (case defend t of None \<Rightarrow> [] | Some d \<Rightarrow> [rank d])) tbl)"

text \<open>
  \<open>addAttack\<close>. The test of line 208 has an empty body: it only reads
  \<open>players[defender].hand.length\<close>, which throws for a defender out of range.
\<close>

definition addAttack :: "game_state \<Rightarrow> nat \<Rightarrow> card \<Rightarrow> error + game_state" where
  "addAttack game byPlayerIndex c =
     (if phase game \<noteq> Defend then Inl Ignored
      else if length (players game) \<le> byPlayerIndex then Inl TypeError
      else
        (let pHand = hand (players game ! byPlayerIndex) in
         case findIndex (\<lambda>x. card_id x = card_id c) pHand of
           None \<Rightarrow> Inl Ignored
         | Some idx \<Rightarrow>
             if \<not> List.member (ranksOnTable (table game)) (rank c)
             then Inl (Alert ''Can only add cards with ranks already on table'')
             else if 8 \<le> length (table game) then Inl (Alert ''Max 8 attacks in one round'')
             else if length (players game) \<le> defender game then Inl TypeError
             else Inr (game\<lparr>players := setHand byPlayerIndex (splice1 idx pHand) (players game),
                             table := table game @
                               [\<lparr>attack = c, defend = None, by_player = byPlayerIndex\<rparr>]\<rparr>)))"

text \<open>The cards of the table, as \<open>defenderTakes\<close> collects them (line 223).\<close>

definition tableCards :: "pair list \<Rightarrow> card list" where
  "tableCards tbl =
     concat (map (\<lambda>t. case defend t of Some d \<Rightarrow> [attack t, d] | None \<Rightarrow> [attack t]) tbl)"

definition defenderTakes :: "game_state \<Rightarrow> error + game_state" where
  "defenderTakes game =
     (if length (players game) \<le> defender game then Inl TypeError
      else
        (let d = defender game;
             toTake = tableCards (table game);
             s = game\<lparr>players := setHand d (hand (players game ! d) @ toTake) (players game),
                      table := []\<rparr>;
             s' = s\<lparr>defender := (attacker s + 1) mod length (players s)\<rparr>;
             after = (drawToFill s')\<lparr>phase := Attack\<rparr>
         in Inr (checkForFinish after)))"

section \<open>The click handler (lines 385-413)\<close>

text \<open>
  \<open>handleClick\<close> of \<open>CardButton\<close> is the only caller of \<open>playAttack\<close>, \<open>playDefend\<close>
  and \<open>addAttack\<close>: a click on card \<open>c\<close> in the hand of player \<open>me\<close> is an attack in
  the phase \<open>Attack\<close> for the attacker, a defence of the first undefended pair in the
  phase \<open>Defend\<close> for the defender, an added attack in the phase \<open>Defend\<close> for the
  attacker, and nothing otherwise. The tests are made in this order on the state the
  handlers then read.
\<close>

definition handleClick :: "game_state \<Rightarrow> nat \<Rightarrow> card \<Rightarrow> error + game_state" where
  "handleClick game me c =
     (if phase game = Attack \<and> attacker game = me then playAttack game me c
      else if phase game = Defend \<and> defender game = me then
        (case findIndex (\<lambda>t. defend t = None) (table game) of
           None \<Rightarrow> Inl (Alert ''No attack to defend'')
         | Some attackIndex \<Rightarrow> playDefend game me attackIndex c)
      else if phase game = Defend \<and> attacker game = me then addAttack game me c
      else Inl Ignored)"

section \<open>Sequences of actions\<close>

text \<open>
  The four handlers as one transition function. A handler that returns early, alerts or
  throws leaves the state of the component as it was.
\<close>

datatype action =
    PlayAttack nat card
  | PlayDefend nat nat card
  | AddAttack nat card
  | DefenderTakes

definition step :: "game_state \<Rightarrow> action \<Rightarrow> error + game_state" where
  "step g a =
     (case a of
        PlayAttack p c \<Rightarrow> playAttack g p c
      | PlayDefend p i c \<Rightarrow> playDefend g p i c
      | AddAttack p c \<Rightarrow> addAttack g p c
      | DefenderTakes \<Rightarrow> defenderTakes g)"

text \<open>
  The state keeps no discard pile: the cards of a fully defended table are dropped by
  \<open>s.table = []\<close>. For the accounting of cards, \<open>discarded g a\<close> is the list of cards
  that action \<open>a\<close> drops in state \<open>g\<close>: the cards of the table at the moment of a
  resolution, and nothing otherwise.
\<close>

definition discarded :: "game_state \<Rightarrow> action \<Rightarrow> card list" where
  "discarded g a =
     (case a of
        PlayDefend p i c \<Rightarrow>
          (case defendStep g p i c of
             Inl e \<Rightarrow> []
           | Inr s \<Rightarrow> if allDefended s then tableCards (table s) else [])
      | _ \<Rightarrow> [])"

fun run :: "game_state \<times> card list \<Rightarrow> action list \<Rightarrow> game_state \<times> card list" where
  "run (g, disc) [] = (g, disc)"
| "run (g, disc) (a # as) =
     (case step g a of
        Inl e \<Rightarrow> run (g, disc) as
      | Inr g' \<Rightarrow> run (g', disc @ discarded g a) as)"

definition handCards :: "player list \<Rightarrow> card list" where
  "handCards ps = concat (map hand ps)"

definition inPlay :: "game_state \<Rightarrow> card list" where
  "inPlay g = deck g @ handCards (players g) @ tableCards (table g)"

text \<open>Two states that differ at most in \<open>maxAdds\<close>, and two results that do.\<close>

definition sameButMaxAdds :: "game_state \<Rightarrow> game_state \<Rightarrow> bool" where
  "sameButMaxAdds g g' = (g\<lparr>maxAdds := 0\<rparr> = g'\<lparr>maxAdds := 0\<rparr>)"

fun sameOutcome :: "error + game_state \<Rightarrow> error + game_state \<Rightarrow> bool" where
  "sameOutcome (Inl e) (Inl e') = (e = e')"
| "sameOutcome (Inr s) (Inr s') = sameButMaxAdds s s'"
| "sameOutcome _ _ = False"

text \<open>
  The refill as the specification words it: the players in index order modulo the
  player count, starting with the attacker, each drawing the number of cards that
  brings the hand to 8, or the whole deck when it is smaller.
\<close>

definition refillOrder :: "game_state \<Rightarrow> nat list" where
  "refillOrder s = map (\<lambda>offset. (attacker s + offset) mod length (players s)) [0..<length (players s)]"

definition drawCount :: "card list \<Rightarrow> card list \<Rightarrow> nat" where
  "drawCount h dk = min (8 - length h) (length dk)"

definition drawUpTo8 :: "card list \<Rightarrow> card list \<Rightarrow> card list \<times> card list" where
  "drawUpTo8 h dk =
     (h @ rev (drop (length dk - drawCount h dk) dk), take (length dk - drawCount h dk) dk)"

text \<open>The deck of \<open>s'\<close> is an initial segment of the deck of \<open>s\<close>.\<close>

definition deckPrefix :: "game_state \<Rightarrow> game_state \<Rightarrow> bool" where
  "deckPrefix s' s = (deck s' = take (length (deck s')) (deck s))"





definition handSize :: "game_state \<Rightarrow> nat \<Rightarrow> nat" where
  "handSize s i = length (hand (players s ! i))"

text \<open>Auxiliary notions of the proofs about \<open>findFirstAttacker\<close>.\<close>

definition trumpsOf :: "suit \<Rightarrow> player \<Rightarrow> card list" where
  "trumpsOf t p = filter (\<lambda>c. suit c = t) (hand p)"

definition rv :: "candidate \<Rightarrow> int" where
  "rv b = rankValue (rank (cand_card b))"

section \<open>Example games\<close>

abbreviation Card :: "rank \<Rightarrow> suit \<Rightarrow> card" where
  "Card r s \<equiv> \<lparr>suit = s, rank = r\<rparr>"

text \<open>The shuffle that swaps every position with itself: the deal from the ordered deck.\<close>

definition noSwap :: "nat \<Rightarrow> nat" where
  "noSwap i = i"

text \<open>The two-player game dealt from the ordered deck, and the first attack in it.\<close>

definition dealtGame :: game_state where
  "dealtGame = projr (newGame 2 noSwap)"

definition firstAttack :: game_state where
  "firstAttack = fst (run (dealtGame, []) [PlayAttack 1 (Card R8 Hearts)])"

text \<open>
  A late position of a two-player game: the deck is used up, the defender holds one
  card and one attack lies on the table.
\<close>

definition lateGame :: game_state where
  "lateGame =
     \<lparr>players = [\<lparr>pid = 0, hand = [Card R7 Spades, Card R7 Diamonds]\<rparr>,
                 \<lparr>pid = 1, hand = [Card R6 Clubs]\<rparr>],
      deck = [], trump = Hearts,
      table = [\<lparr>attack = Card R7 Clubs, defend = None, by_player = 0\<rparr>],
      attacker = 0, defender = 1, phase = Defend, maxAdds = 1\<rparr>"

text \<open>The same position when the attack was the attacker's last card.\<close>

definition endGame :: game_state where
  "endGame = lateGame\<lparr>players := [\<lparr>pid = 0, hand = []\<rparr>, \<lparr>pid = 1, hand = [Card R6 Clubs]\<rparr>]\<rparr>"

text \<open>
  The state in which \<open>defenderTakes\<close> calls \<open>drawToFill\<close> when the defender of
  \<open>firstAttack\<close> takes the attack card: the defender, player 0, holds nine cards.
\<close>

definition takenGame :: game_state where
  "takenGame =
     firstAttack\<lparr>players := setHand 0 (hand (players firstAttack ! 0) @ [Card R8 Hearts])
                                (players firstAttack),
                 table := []\<rparr>"

text \<open>
  A short play of \<open>dealtGame\<close>: an attack that is defended (the round resolves and two
  cards are dropped), then an attack that the defender takes.
\<close>

definition samplePlay :: "action list" where
  "samplePlay =
     [PlayAttack 1 (Card R8 Hearts), PlayDefend 0 0 (Card R9 Hearts),
      PlayAttack 0 (Card R6 Spades), DefenderTakes]"

text \<open>
  A longer play of \<open>dealtGame\<close>, every action of it one that the click handlers of the
  page offer in the state at hand. It uses up the deck and ends in a round in which
  the defender has one card left, one pair defended and one pair to defend.
\<close>

definition longPlay :: "action list" where
  "longPlay =
     [PlayAttack 1 (Card R8 Hearts), PlayDefend 0 0 (Card RJ Hearts),
      PlayAttack 0 (Card R6 Spades), PlayDefend 1 0 (Card R7 Spades),
      PlayAttack 1 (Card RQ Hearts), PlayDefend 0 0 (Card RK Hearts),
      PlayAttack 0 (Card RQ Spades), PlayDefend 1 0 (Card RK Spades),
      PlayAttack 1 (Card RK Diamonds), PlayDefend 0 0 (Card R6 Hearts),
      PlayAttack 0 (Card RQ Diamonds), PlayDefend 1 0 (Card R10 Hearts),
      PlayAttack 1 (Card R9 Diamonds), PlayDefend 0 0 (Card R9 Hearts),
      PlayAttack 0 (Card R10 Spades), PlayDefend 1 0 (Card RA Hearts),
      PlayAttack 1 (Card R10 Diamonds), AddAttack 1 (Card R10 Clubs),
      PlayDefend 0 0 (Card RJ Diamonds), AddAttack 1 (Card RJ Spades),
      AddAttack 1 (Card RJ Clubs), PlayDefend 0 1 (Card RQ Clubs),
      PlayDefend 0 2 (Card RA Spades), PlayDefend 0 3 (Card RK Clubs),
      PlayAttack 0 (Card R9 Clubs), PlayDefend 1 0 (Card RA Clubs),
      PlayAttack 1 (Card R6 Diamonds), PlayDefend 0 0 (Card R7 Diamonds),
      PlayAttack 0 (Card R8 Spades), AddAttack 0 (Card R8 Diamonds),
      PlayDefend 1 0 (Card R9 Spades)]"

definition nearEnd :: game_state where
  "nearEnd = fst (run (dealtGame, []) longPlay)"

text \<open>The three-player game dealt from the ordered deck: player 1 neither attacks nor defends.\<close>

definition threeGame :: game_state where
  "threeGame = projr (newGame 3 noSwap)"


section \<open>The beat rule\<close>

lemma rankValue_simps [simp]:
  "rankValue R6 = 0" "rankValue R7 = 1" "rankValue R8 = 2" "rankValue R9 = 3"
  "rankValue R10 = 4" "rankValue RJ = 5" "rankValue RQ = 6" "rankValue RK = 7"
  "rankValue RA = 8"
  by (simp_all add: rankValue_def RANKS_def)

text \<open>
  Claim C2. For every attack card \<open>A\<close>, defend card \<open>D\<close> and trump suit \<open>t\<close>, \<open>canBeat\<close>
  accepts \<open>D\<close> against \<open>A\<close> exactly when both have the same suit and \<open>D\<close> has the higher
  rank, or \<open>D\<close> is a trump and \<open>A\<close> is not. In particular a trump attack is beaten only
  by a higher trump, and trump against trump is decided by rank.
\<close>

theorem canBeat_rule:
  "(canBeat A (Some D) t \<longleftrightarrow>
      (suit A = suit D \<and> rankValue (rank D) > rankValue (rank A)) \<or>
      (suit D = t \<and> suit A \<noteq> t))
   \<and> (suit A = t \<longrightarrow>
        (canBeat A (Some D) t \<longleftrightarrow> suit D = t \<and> rankValue (rank D) > rankValue (rank A)))"
  by (auto simp: canBeat_def)

theorem canBeat_rule_witness:
  "canBeat (Card RA Hearts) (Some (Card R6 Spades)) Spades
   \<and> \<not> canBeat (Card R6 Spades) (Some (Card RA Hearts)) Spades
   \<and> canBeat (Card R6 Spades) (Some (Card R7 Spades)) Spades
   \<and> \<not> canBeat (Card R7 Spades) (Some (Card R6 Spades)) Spades"
  using canBeat_rule [of "Card RA Hearts" "Card R6 Spades" Spades]
    canBeat_rule [of "Card R6 Spades" "Card RA Hearts" Spades]
    canBeat_rule [of "Card R6 Spades" "Card R7 Spades" Spades]
    canBeat_rule [of "Card R7 Spades" "Card R6 Spades" Spades]
  by simp

section \<open>The first attacker\<close>

lemma sort_key_head:
  assumes "sort_key f xs = c0 # rest"
  shows "c0 \<in> set xs \<and> (\<forall>d \<in> set xs. f c0 \<le> f d)"
proof -
  have "set (sort_key f xs) = set xs" by simp
  with assms have s: "set xs = insert c0 (set rest)" by simp
  have "sorted (map f (sort_key f xs))" by (rule sorted_sort_key)
  with assms have "\<forall>d \<in> set rest. f c0 \<le> f d" by simp
  with s show ?thesis by auto
qed

lemma considerPlayer_no_trump:
  "trumpsOf t p = [] \<Longrightarrow> considerPlayer t i p best = best"
  by (simp add: considerPlayer_def trumpsOf_def)

lemma considerPlayer_cases:
  assumes "trumpsOf t p \<noteq> []"
  obtains b where "considerPlayer t i p best = Some b"
    "best = Some b \<or> (playerIndex b = i \<and> cand_card b \<in> set (trumpsOf t p))"
    "\<forall>d \<in> set (trumpsOf t p). rv b \<le> rankValue (rank d)"
    "\<forall>b0. best = Some b0 \<longrightarrow> rv b \<le> rv b0"
proof -
  let ?s = "sort_key (\<lambda>c. rankValue (rank c)) (trumpsOf t p)"
  have "length ?s = length (trumpsOf t p)" by simp
  with assms have "?s \<noteq> []" by (metis length_0_conv)
  then obtain c0 rest where s: "?s = c0 # rest" by (cases ?s) auto
  from sort_key_head[OF s] have c0: "c0 \<in> set (trumpsOf t p)"
    and mn: "\<forall>d \<in> set (trumpsOf t p). rankValue (rank c0) \<le> rankValue (rank d)" by auto
  show thesis
  proof (cases best)
    case None
    with s have "considerPlayer t i p best = Some \<lparr>playerIndex = i, cand_card = c0\<rparr>"
      by (simp add: considerPlayer_def trumpsOf_def)
    then show ?thesis using c0 mn None by (intro that) (auto simp: rv_def)
  next
    case (Some b0)
    show ?thesis
    proof (cases "rankValue (rank c0) < rv b0")
      case True
      with s Some have "considerPlayer t i p best = Some \<lparr>playerIndex = i, cand_card = c0\<rparr>"
        by (simp add: considerPlayer_def trumpsOf_def rv_def)
      then show ?thesis using c0 mn Some True by (intro that) (auto simp: rv_def)
    next
      case False
      with s Some have "considerPlayer t i p best = Some b0"
        by (simp add: considerPlayer_def trumpsOf_def rv_def)
      then show ?thesis using mn Some False by (intro that[of b0]) (auto simp: rv_def)
    qed
  qed
qed

lemma firstLoop_None:
  "(firstLoop t i ps best = None) = (best = None \<and> (\<forall>p \<in> set ps. trumpsOf t p = []))"
proof (induction ps arbitrary: i best)
  case Nil
  then show ?case by simp
next
  case (Cons p ps)
  show ?case
  proof (cases "trumpsOf t p = []")
    case True
    then show ?thesis using Cons.IH by (simp add: considerPlayer_no_trump)
  next
    case False
    then obtain b where "considerPlayer t i p best = Some b"
      by (rule considerPlayer_cases)
    then show ?thesis using False Cons.IH by simp
  qed
qed

lemma firstLoop_Some:
  assumes "firstLoop t i ps best = Some b"
  shows "(best = Some b \<or>
          (\<exists>k < length ps. playerIndex b = i + k \<and> cand_card b \<in> set (trumpsOf t (ps ! k))))
       \<and> (\<forall>p \<in> set ps. \<forall>d \<in> set (trumpsOf t p). rv b \<le> rankValue (rank d))
       \<and> (\<forall>b0. best = Some b0 \<longrightarrow> rv b \<le> rv b0)"
  using assms
proof (induction ps arbitrary: i best)
  case Nil
  then show ?case by simp
next
  case (Cons p ps)
  show ?case
  proof (cases "trumpsOf t p = []")
    case True
    with Cons.prems have "firstLoop t (Suc i) ps best = Some b"
      by (simp add: considerPlayer_no_trump)
    from Cons.IH[OF this] True show ?thesis by (auto simp: nth_Cons')
  next
    case False
    then obtain b1 where b1: "considerPlayer t i p best = Some b1"
      and src: "best = Some b1 \<or> (playerIndex b1 = i \<and> cand_card b1 \<in> set (trumpsOf t p))"
      and mn: "\<forall>d \<in> set (trumpsOf t p). rv b1 \<le> rankValue (rank d)"
      and le: "\<forall>b0. best = Some b0 \<longrightarrow> rv b1 \<le> rv b0"
      by (rule considerPlayer_cases)
    from Cons.prems b1 have "firstLoop t (Suc i) ps (Some b1) = Some b" by simp
    from Cons.IH[OF this]
    have A: "b1 = b \<or> (\<exists>k < length ps. playerIndex b = Suc i + k \<and> cand_card b \<in> set (trumpsOf t (ps ! k)))"
      and B: "\<forall>p \<in> set ps. \<forall>d \<in> set (trumpsOf t p). rv b \<le> rankValue (rank d)"
      and C: "rv b \<le> rv b1" by auto
    have 1: "best = Some b \<or>
          (\<exists>k < length (p # ps). playerIndex b = i + k \<and> cand_card b \<in> set (trumpsOf t ((p # ps) ! k)))"
    proof -
      from A show ?thesis
      proof
        assume "b1 = b"
        with src show ?thesis by auto
      next
        assume "\<exists>k < length ps. playerIndex b = Suc i + k \<and> cand_card b \<in> set (trumpsOf t (ps ! k))"
        then obtain k where "k < length ps" "playerIndex b = Suc i + k" "cand_card b \<in> set (trumpsOf t (ps ! k))"
          by auto
        then have "Suc k < length (p # ps) \<and> playerIndex b = i + Suc k \<and> cand_card b \<in> set (trumpsOf t ((p # ps) ! Suc k))"
          by simp
        then show ?thesis by blast
      qed
    qed
    have 2: "\<forall>q \<in> set (p # ps). \<forall>d \<in> set (trumpsOf t q). rv b \<le> rankValue (rank d)"
      using B C mn by fastforce
    have 3: "\<forall>b0. best = Some b0 \<longrightarrow> rv b \<le> rv b0"
      using C le by fastforce
    from 1 2 3 show ?thesis by blast
  qed
qed

text \<open>
  Claim C9. \<open>findFirstAttacker\<close> is a function of the hands and the trump suit. When
  some player holds a trump it returns the index of a player who holds a trump of the
  lowest rank among all trumps in all hands; when no player holds a trump it returns 0.
\<close>

theorem findFirstAttacker_lowest_trump:
  "((\<exists>p \<in> set ps. \<exists>c \<in> set (hand p). suit c = t) \<longrightarrow>
      findFirstAttacker ps t < length ps \<and>
      (\<exists>c \<in> set (hand (ps ! findFirstAttacker ps t)). suit c = t \<and>
         (\<forall>q \<in> set ps. \<forall>d \<in> set (hand q). suit d = t \<longrightarrow> rankValue (rank c) \<le> rankValue (rank d))))
   \<and> ((\<forall>p \<in> set ps. \<forall>c \<in> set (hand p). suit c \<noteq> t) \<longrightarrow> findFirstAttacker ps t = 0)"
proof (intro conjI impI)
  assume "\<forall>p \<in> set ps. \<forall>c \<in> set (hand p). suit c \<noteq> t"
  then have "\<forall>p \<in> set ps. trumpsOf t p = []"
    by (auto simp: trumpsOf_def filter_empty_conv)
  then have "firstLoop t 0 ps None = None" by (simp add: firstLoop_None)
  then show "findFirstAttacker ps t = 0" by (simp add: findFirstAttacker_def)
next
  assume ex: "\<exists>p \<in> set ps. \<exists>c \<in> set (hand p). suit c = t"
  then have "\<not> (\<forall>p \<in> set ps. trumpsOf t p = [])"
    by (auto simp: trumpsOf_def filter_empty_conv)
  then have "firstLoop t 0 ps None \<noteq> None" by (simp add: firstLoop_None)
  then obtain b where b: "firstLoop t 0 ps None = Some b" by auto
  then have r: "findFirstAttacker ps t = playerIndex b" by (simp add: findFirstAttacker_def)
  from firstLoop_Some[OF b]
  obtain k where k: "k < length ps" "playerIndex b = k" "cand_card b \<in> set (trumpsOf t (ps ! k))"
    and mn: "\<forall>p \<in> set ps. \<forall>d \<in> set (trumpsOf t p). rv b \<le> rankValue (rank d)"
    by auto
  show "findFirstAttacker ps t < length ps" using r k by simp
  have "cand_card b \<in> set (hand (ps ! findFirstAttacker ps t)) \<and> suit (cand_card b) = t"
    using r k by (simp add: trumpsOf_def)
  moreover have "\<forall>q \<in> set ps. \<forall>d \<in> set (hand q). suit d = t \<longrightarrow> rankValue (rank (cand_card b)) \<le> rankValue (rank d)"
    using mn by (auto simp: trumpsOf_def rv_def)
  ultimately show "\<exists>c \<in> set (hand (ps ! findFirstAttacker ps t)). suit c = t \<and>
         (\<forall>q \<in> set ps. \<forall>d \<in> set (hand q). suit d = t \<longrightarrow> rankValue (rank c) \<le> rankValue (rank d))"
    by blast
qed

theorem findFirstAttacker_lowest_trump_witness:
  "findFirstAttacker
     [\<lparr>pid = 0, hand = [Card R6 Clubs, Card R9 Hearts]\<rparr>,
      \<lparr>pid = 1, hand = [Card RA Spades, Card R8 Hearts]\<rparr>] Hearts = 1
   \<and> findFirstAttacker
     [\<lparr>pid = 0, hand = [Card R6 Clubs, Card R9 Hearts]\<rparr>,
      \<lparr>pid = 1, hand = [Card RA Spades, Card R8 Hearts]\<rparr>] Diamonds = 0"
proof -
  let ?ps = "[\<lparr>pid = 0, hand = [Card R6 Clubs, Card R9 Hearts]\<rparr>,
              \<lparr>pid = 1, hand = [Card RA Spades, Card R8 Hearts]\<rparr>]"
  have h: "\<exists>p \<in> set ?ps. \<exists>c \<in> set (hand p). suit c = Hearts" by simp
  have d: "\<forall>p \<in> set ?ps. \<forall>c \<in> set (hand p). suit c \<noteq> Diamonds" by simp
  from findFirstAttacker_lowest_trump [of ?ps Hearts] h
  obtain c where lt: "findFirstAttacker ?ps Hearts < length ?ps"
    and c: "c \<in> set (hand (?ps ! findFirstAttacker ?ps Hearts))" "suit c = Hearts"
    and mn: "\<forall>q \<in> set ?ps. \<forall>d \<in> set (hand q). suit d = Hearts \<longrightarrow>
               rankValue (rank c) \<le> rankValue (rank d)"
    by blast
  from mn have le: "rankValue (rank c) \<le> 2" by simp
  from lt have "findFirstAttacker ?ps Hearts = 0 \<or> findFirstAttacker ?ps Hearts = 1"
    by (simp add: less_Suc_eq)
  then have "findFirstAttacker ?ps Hearts = 1"
  proof
    assume z: "findFirstAttacker ?ps Hearts = 0"
    with c have "c = Card R9 Hearts" by auto
    with le show ?thesis by simp
  qed simp
  moreover from findFirstAttacker_lowest_trump [of ?ps Diamonds] d
  have "findFirstAttacker ?ps Diamonds = 0" by blast
  ultimately show ?thesis by simp
qed

section \<open>The end of the game\<close>

lemma checkForFinish_phase:
  "phase s \<noteq> Finished \<Longrightarrow>
   (phase (checkForFinish s) = Finished) =
   ((\<exists>p \<in> set (players (checkForFinish s)). hand p = []) \<and> deck (checkForFinish s) = [])"
  by (auto simp: checkForFinish_def filter_empty_conv)

text \<open>
  Claim C3. After a take, and after the resolution of a round (a defence that leaves
  every pair of the table defended), the phase is \<open>Finished\<close> exactly when some hand is
  empty and the deck is empty in the resulting state. So the phase does not become
  \<open>Finished\<close> while the deck holds a card, whatever the hands are.
\<close>

theorem finish_exact:
  "(defenderTakes g = Inr g' \<longrightarrow>
      (phase g' = Finished \<longleftrightarrow> (\<exists>p \<in> set (players g'). hand p = []) \<and> deck g' = []))
   \<and> (defendStep g pIdx i c = Inr s \<and> allDefended s \<longrightarrow>
        playDefend g pIdx i c = Inr (resolveRound s) \<and>
        (phase (resolveRound s) = Finished \<longleftrightarrow>
           (\<exists>p \<in> set (players (resolveRound s)). hand p = []) \<and> deck (resolveRound s) = []))"
proof (intro conjI impI)
  assume "defenderTakes g = Inr g'"
  then obtain s where "g' = checkForFinish (s\<lparr>phase := Attack\<rparr>)"
    by (auto simp: defenderTakes_def Let_def split: if_splits)
  then show "phase g' = Finished \<longleftrightarrow> (\<exists>p \<in> set (players g'). hand p = []) \<and> deck g' = []"
    using checkForFinish_phase[of "s\<lparr>phase := Attack\<rparr>"] by simp
next
  assume a: "defendStep g pIdx i c = Inr s \<and> allDefended s"
  then show "playDefend g pIdx i c = Inr (resolveRound s)" by (simp add: playDefend_def)
next
  assume a: "defendStep g pIdx i c = Inr s \<and> allDefended s"
  obtain s' where "resolveRound s = checkForFinish (s'\<lparr>phase := Attack\<rparr>)"
    by (auto simp: resolveRound_def Let_def)
  then show "phase (resolveRound s) = Finished \<longleftrightarrow>
           (\<exists>p \<in> set (players (resolveRound s)). hand p = []) \<and> deck (resolveRound s) = []"
    using checkForFinish_phase[of "s'\<lparr>phase := Attack\<rparr>"] by simp
qed

theorem finish_exact_witness:
  "phase (projr (defenderTakes endGame)) = Finished
   \<and> playDefend firstAttack 0 0 (Card R9 Hearts) =
       Inr (resolveRound (projr (defendStep firstAttack 0 0 (Card R9 Hearts))))
   \<and> phase (resolveRound (projr (defendStep firstAttack 0 0 (Card R9 Hearts)))) \<noteq> Finished"
proof -
  let ?g' = "projr (defenderTakes endGame)"
  let ?s = "projr (defendStep firstAttack 0 0 (Card R9 Hearts))"
  have t: "defenderTakes endGame = Inr ?g'" by code_simp
  have e: "(\<exists>p \<in> set (players ?g'). hand p = []) \<and> deck ?g' = []" by code_simp
  have d: "defendStep firstAttack 0 0 (Card R9 Hearts) = Inr ?s \<and> allDefended ?s" by code_simp
  have n: "deck (resolveRound ?s) \<noteq> []" by code_simp
  from finish_exact [of endGame ?g'] t e
  have "phase ?g' = Finished" by blast
  moreover from finish_exact [of firstAttack _ 0 0 "Card R9 Hearts" ?s] d n
  have "playDefend firstAttack 0 0 (Card R9 Hearts) = Inr (resolveRound ?s)
      \<and> phase (resolveRound ?s) \<noteq> Finished" by blast
  ultimately show ?thesis by simp
qed

section \<open>The handlers called directly\<close>

text \<open>
  The handlers on their own test less than the click handler does. \<open>playAttack\<close> has
  the comment "enforce attack phase" and no test of the phase: called in the phase
  \<open>Defend\<close> of \<open>firstAttack\<close> it puts a second pair on the table and recomputes
  \<open>maxAdds\<close>. \<open>addAttack\<close> never compares \<open>byPlayerIndex\<close> with the attacker: called
  for the defender it adds a card of the defender as an attack.
\<close>

lemma playAttack_called_in_defend_phase:
  "newGame 2 noSwap = Inr dealtGame
   \<and> step dealtGame (PlayAttack 1 (Card R8 Hearts)) = Inr firstAttack
   \<and> phase firstAttack = Defend
   \<and> playAttack firstAttack 1 (Card R7 Spades) =
       Inr (firstAttack
             \<lparr>players := setHand 1 [Card RK Spades, Card RJ Spades, Card R9 Spades,
                                    Card RA Hearts, Card RQ Hearts, Card R10 Hearts]
                           (players firstAttack),
              table := [\<lparr>attack = Card R8 Hearts, defend = None, by_player = 1\<rparr>,
                        \<lparr>attack = Card R7 Spades, defend = None, by_player = 1\<rparr>],
              maxAdds := 6\<rparr>)"
  by code_simp

lemma addAttack_called_for_defender:
  "phase firstAttack = Defend \<and> attacker firstAttack = 1 \<and> defender firstAttack = 0
   \<and> addAttack firstAttack 0 (Card R8 Spades) =
       Inr (firstAttack
             \<lparr>players := setHand 0 [Card RA Spades, Card RQ Spades, Card R10 Spades,
                                    Card R6 Spades, Card RK Hearts, Card RJ Hearts,
                                    Card R9 Hearts]
                           (players firstAttack),
              table := [\<lparr>attack = Card R8 Hearts, defend = None, by_player = 1\<rparr>,
                        \<lparr>attack = Card R8 Spades, defend = None, by_player = 0\<rparr>]\<rparr>)"
  by code_simp

text \<open>
  Claim C5 (the code departs from it). The test of \<open>addAttack\<close> against the defender's
  hand size has an empty body, so nothing is rejected by it. \<open>nearEnd\<close> is reached from
  the deal by \<open>longPlay\<close>: the defender holds one card and one pair is undefended.
  The condition of the empty test holds there, and still a further attack of a rank
  on the table is accepted. Afterwards two pairs are undefended and the defender's
  hand has one card.
\<close>

theorem addAttack_exceeds_defender_hand:
  "newGame 2 noSwap = Inr dealtGame
   \<and> run (dealtGame, []) longPlay = (nearEnd, snd (run (dealtGame, []) longPlay))
   \<and> nearEnd =
       \<lparr>players = [\<lparr>pid = 0, hand = [Card R8 Clubs, Card R7 Clubs, Card R6 Clubs, Card R7 Hearts]\<rparr>,
                   \<lparr>pid = 1, hand = [Card RA Diamonds]\<rparr>],
        deck = [], trump = Hearts,
        table = [\<lparr>attack = Card R8 Spades, defend = Some (Card R9 Spades), by_player = 0\<rparr>,
                 \<lparr>attack = Card R8 Diamonds, defend = None, by_player = 0\<rparr>],
        attacker = 0, defender = 1, phase = Defend, maxAdds = 2\<rparr>
   \<and> length (hand (players nearEnd ! defender nearEnd))
         + length (filter (\<lambda>t. defend t = None) (table nearEnd)) \<le> length (table nearEnd)
   \<and> addAttack nearEnd 0 (Card R8 Clubs) =
       Inr (nearEnd
             \<lparr>players := [\<lparr>pid = 0, hand = [Card R7 Clubs, Card R6 Clubs, Card R7 Hearts]\<rparr>,
                          \<lparr>pid = 1, hand = [Card RA Diamonds]\<rparr>],
              table := [\<lparr>attack = Card R8 Spades, defend = Some (Card R9 Spades), by_player = 0\<rparr>,
                        \<lparr>attack = Card R8 Diamonds, defend = None, by_player = 0\<rparr>,
                        \<lparr>attack = Card R8 Clubs, defend = None, by_player = 0\<rparr>]\<rparr>)
   \<and> length (filter (\<lambda>t. defend t = None)
        (table (projr (addAttack nearEnd 0 (Card R8 Clubs))))) = 2
   \<and> length (hand (players (projr (addAttack nearEnd 0 (Card R8 Clubs))) !
                    defender (projr (addAttack nearEnd 0 (Card R8 Clubs))))) = 1"
  unfolding nearEnd_def dealtGame_def by code_simp

section \<open>The field maxAdds\<close>

lemma fillHand_maxAdds: "fillHand i (s\<lparr>maxAdds := m\<rparr>) = (fillHand i s)\<lparr>maxAdds := m\<rparr>"
  by (simp add: fillHand_def Let_def)

lemma fillHand_keeps [simp]:
  "length (players (fillHand i s)) = length (players s)"
  "attacker (fillHand i s) = attacker s"
  by (simp_all add: fillHand_def Let_def)

lemma fillLoop_maxAdds: "fillLoop k (s\<lparr>maxAdds := m\<rparr>) = (fillLoop k s)\<lparr>maxAdds := m\<rparr>"
proof (induction k s rule: fillLoop.induct)
  case (1 offset s)
  show ?case
  proof (cases "offset < length (players s)")
    case True
    then show ?thesis
      using "1.IH" by (subst (1 2) fillLoop.simps) (simp add: fillHand_maxAdds)
  next
    case False
    then show ?thesis by (subst (1 2) fillLoop.simps) simp
  qed
qed

lemma drawToFill_maxAdds: "drawToFill (s\<lparr>maxAdds := m\<rparr>) = (drawToFill s)\<lparr>maxAdds := m\<rparr>"
  by (simp add: drawToFill_def fillLoop_maxAdds)

lemma checkForFinish_maxAdds:
  "checkForFinish (s\<lparr>maxAdds := m\<rparr>) = (checkForFinish s)\<lparr>maxAdds := m\<rparr>"
  by (simp add: checkForFinish_def)

lemma playAttack_maxAdds: "playAttack (g\<lparr>maxAdds := m\<rparr>) p c = playAttack g p c"
  by (simp add: playAttack_def Let_def split: option.splits)

lemma addAttack_maxAdds:
  "addAttack (g\<lparr>maxAdds := m\<rparr>) p c = map_sum id (\<lambda>s. s\<lparr>maxAdds := m\<rparr>) (addAttack g p c)"
  by (simp add: addAttack_def Let_def split: option.splits)

lemma defendStep_maxAdds:
  "defendStep (g\<lparr>maxAdds := m\<rparr>) p i c = map_sum id (\<lambda>s. s\<lparr>maxAdds := m\<rparr>) (defendStep g p i c)"
  by (simp add: defendStep_def Let_def split: option.splits)

lemma resolveRound_maxAdds: "resolveRound (s\<lparr>maxAdds := m\<rparr>) = (resolveRound s)\<lparr>maxAdds := m\<rparr>"
proof -
  let ?prep = "\<lambda>s::game_state. s\<lparr>table := [], attacker := defender s,
               defender := (defender s + 1) mod length (players s), phase := Cleanup\<rparr>"
  have r: "\<And>s. resolveRound s = checkForFinish ((drawToFill (?prep s))\<lparr>phase := Attack\<rparr>)"
    by (simp add: resolveRound_def Let_def)
  have 1: "?prep (s\<lparr>maxAdds := m\<rparr>) = (?prep s)\<lparr>maxAdds := m\<rparr>" by simp
  have 2: "((drawToFill (?prep s))\<lparr>maxAdds := m\<rparr>)\<lparr>phase := Attack\<rparr>
         = ((drawToFill (?prep s))\<lparr>phase := Attack\<rparr>)\<lparr>maxAdds := m\<rparr>" by simp
  have "resolveRound (s\<lparr>maxAdds := m\<rparr>) =
          checkForFinish ((drawToFill (?prep (s\<lparr>maxAdds := m\<rparr>)))\<lparr>phase := Attack\<rparr>)"
    by (rule r)
  also have "\<dots> = checkForFinish (((drawToFill (?prep s))\<lparr>maxAdds := m\<rparr>)\<lparr>phase := Attack\<rparr>)"
    by (simp only: 1 drawToFill_maxAdds)
  also have "\<dots> = (checkForFinish ((drawToFill (?prep s))\<lparr>phase := Attack\<rparr>))\<lparr>maxAdds := m\<rparr>"
    by (simp only: 2 checkForFinish_maxAdds)
  finally show ?thesis by (simp only: r)
qed

lemma playDefend_maxAdds:
  "playDefend (g\<lparr>maxAdds := m\<rparr>) p i c = map_sum id (\<lambda>s. s\<lparr>maxAdds := m\<rparr>) (playDefend g p i c)"
  by (cases "defendStep g p i c")
     (simp_all add: playDefend_def defendStep_maxAdds resolveRound_maxAdds allDefended_def)

lemma defenderTakes_maxAdds:
  "defenderTakes (g\<lparr>maxAdds := m\<rparr>) = map_sum id (\<lambda>s. s\<lparr>maxAdds := m\<rparr>) (defenderTakes g)"
proof (cases "length (players g) \<le> defender g")
  case True
  then show ?thesis by (simp add: defenderTakes_def)
next
  case False
  let ?prep = "\<lambda>g::game_state.
     g\<lparr>players := setHand (defender g) (hand (players g ! defender g) @ tableCards (table g))
                     (players g),
       table := [],
       defender := (attacker g + 1) mod length (setHand (defender g)
                     (hand (players g ! defender g) @ tableCards (table g)) (players g))\<rparr>"
  have r: "\<And>g. \<not> length (players g) \<le> defender g \<Longrightarrow>
             defenderTakes g = Inr (checkForFinish ((drawToFill (?prep g))\<lparr>phase := Attack\<rparr>))"
    by (simp add: defenderTakes_def Let_def)
  have 1: "?prep (g\<lparr>maxAdds := m\<rparr>) = (?prep g)\<lparr>maxAdds := m\<rparr>" by simp
  have 2: "((drawToFill (?prep g))\<lparr>maxAdds := m\<rparr>)\<lparr>phase := Attack\<rparr>
         = ((drawToFill (?prep g))\<lparr>phase := Attack\<rparr>)\<lparr>maxAdds := m\<rparr>" by simp
  have "defenderTakes (g\<lparr>maxAdds := m\<rparr>) =
          Inr (checkForFinish ((drawToFill (?prep (g\<lparr>maxAdds := m\<rparr>)))\<lparr>phase := Attack\<rparr>))"
    using False by (intro r) simp
  also have "\<dots> = Inr (checkForFinish (((drawToFill (?prep g))\<lparr>maxAdds := m\<rparr>)\<lparr>phase := Attack\<rparr>))"
    by (simp only: 1 drawToFill_maxAdds)
  also have "\<dots> = Inr ((checkForFinish ((drawToFill (?prep g))\<lparr>phase := Attack\<rparr>))\<lparr>maxAdds := m\<rparr>)"
    by (simp only: 2 checkForFinish_maxAdds)
  finally show ?thesis using r[OF False] by simp
qed

lemma sameButMaxAdds_upd: "sameButMaxAdds g g' \<Longrightarrow> g' = g\<lparr>maxAdds := maxAdds g'\<rparr>"
proof -
  assume "sameButMaxAdds g g'"
  then have "g\<lparr>maxAdds := 0\<rparr> = g'\<lparr>maxAdds := 0\<rparr>" by (simp add: sameButMaxAdds_def)
  then have "(g\<lparr>maxAdds := 0\<rparr>)\<lparr>maxAdds := maxAdds g'\<rparr> = (g'\<lparr>maxAdds := 0\<rparr>)\<lparr>maxAdds := maxAdds g'\<rparr>"
    by simp
  then show ?thesis by simp
qed

lemma sameOutcome_refl: "sameOutcome r r"
  by (cases r) (simp_all add: sameButMaxAdds_def)

lemma sameOutcome_upd: "sameOutcome r (map_sum id (\<lambda>s. s\<lparr>maxAdds := m\<rparr>) r)"
  by (cases r) (simp_all add: sameButMaxAdds_def)

text \<open>
  Claim C10. The field \<open>maxAdds\<close> is only written. For two states that differ at most
  in \<open>maxAdds\<close>, each of the four actions is either rejected in both with the same
  error, or accepted in both with results that again differ at most in \<open>maxAdds\<close>. In
  particular the decision of \<open>addAttack\<close> does not depend on \<open>maxAdds\<close>.
\<close>

theorem maxAdds_write_only:
  "sameButMaxAdds g g' \<Longrightarrow>
     sameOutcome (playAttack g p c) (playAttack g' p c)
   \<and> sameOutcome (playDefend g p i c) (playDefend g' p i c)
   \<and> sameOutcome (addAttack g p c) (addAttack g' p c)
   \<and> sameOutcome (defenderTakes g) (defenderTakes g')"
proof -
  assume "sameButMaxAdds g g'"
  then have e: "g' = g\<lparr>maxAdds := maxAdds g'\<rparr>" by (rule sameButMaxAdds_upd)
  have "sameOutcome (playAttack g p c) (playAttack g' p c)"
    by (subst e) (simp add: playAttack_maxAdds sameOutcome_refl)
  moreover have "sameOutcome (playDefend g p i c) (playDefend g' p i c)"
    by (subst e) (simp add: playDefend_maxAdds sameOutcome_upd)
  moreover have "sameOutcome (addAttack g p c) (addAttack g' p c)"
    by (subst e) (simp add: addAttack_maxAdds sameOutcome_upd)
  moreover have "sameOutcome (defenderTakes g) (defenderTakes g')"
    by (subst e) (simp add: defenderTakes_maxAdds sameOutcome_upd)
  ultimately show ?thesis by simp
qed

theorem maxAdds_write_only_witness:
  "sameOutcome (playAttack lateGame 0 (Card R7 Spades))
               (playAttack (lateGame\<lparr>maxAdds := 0\<rparr>) 0 (Card R7 Spades))
   \<and> sameOutcome (playDefend lateGame 1 0 (Card R6 Clubs))
                 (playDefend (lateGame\<lparr>maxAdds := 0\<rparr>) 1 0 (Card R6 Clubs))
   \<and> sameOutcome (addAttack lateGame 0 (Card R7 Spades))
                 (addAttack (lateGame\<lparr>maxAdds := 0\<rparr>) 0 (Card R7 Spades))
   \<and> sameOutcome (defenderTakes lateGame) (defenderTakes (lateGame\<lparr>maxAdds := 0\<rparr>))
   \<and> \<not> isl (addAttack (lateGame\<lparr>maxAdds := 0\<rparr>) 0 (Card R7 Spades))"
proof -
  have h: "sameButMaxAdds lateGame (lateGame\<lparr>maxAdds := 0\<rparr>)"
    by (simp add: sameButMaxAdds_def)
  have a: "\<not> isl (addAttack (lateGame\<lparr>maxAdds := 0\<rparr>) 0 (Card R7 Spades))"
    by code_simp
  from maxAdds_write_only [OF h, of 0 "Card R7 Spades"]
    maxAdds_write_only [OF h, of 1 "Card R6 Clubs" 0] a
  show ?thesis by simp
qed

section \<open>The refill\<close>

lemma drawWhile_drawUpTo8: "drawWhile h dk = drawUpTo8 h dk"
proof (induction h dk rule: drawWhile.induct)
  case (1 h dk)
  show ?case
  proof (cases "length h < 8 \<and> dk \<noteq> []")
    case True
    then obtain ys x where dk: "dk = ys @ [x]" by (cases dk rule: rev_cases) auto
    from True have "drawWhile h dk = drawWhile (h @ [last dk]) (butlast dk)"
      by (subst drawWhile.simps) simp
    also have "\<dots> = drawUpTo8 (h @ [x]) ys" using "1.IH" True dk by simp
    also have "\<dots> = drawUpTo8 h dk"
    proof -
      have k: "drawCount h dk = Suc (drawCount (h @ [x]) ys)"
        using True dk by (auto simp: drawCount_def)
      have le: "drawCount (h @ [x]) ys \<le> length ys" by (simp add: drawCount_def)
      from k le have m: "length dk - drawCount h dk = length ys - drawCount (h @ [x]) ys"
        using dk by simp
      show ?thesis
        unfolding drawUpTo8_def m using dk by simp
    qed
    finally show ?thesis .
  next
    case False
    then have "drawWhile h dk = (h, dk)" by (subst drawWhile.simps) auto
    moreover from False have "drawCount h dk = 0" by (auto simp: drawCount_def)
    ultimately show ?thesis by (simp add: drawUpTo8_def)
  qed
qed

lemma fillLoop_foldl:
  "fillLoop k s =
     foldl (\<lambda>t i. fillHand i t) s
       (map (\<lambda>offset. (attacker s + offset) mod length (players s)) [k..<length (players s)])"
proof (induction k s rule: fillLoop.induct)
  case (1 offset s)
  show ?case
  proof (cases "offset < length (players s)")
    case True
    then have "fillLoop offset s =
        fillLoop (Suc offset) (fillHand ((attacker s + offset) mod length (players s)) s)"
      by (subst fillLoop.simps) simp
    then show ?thesis using "1.IH" True by (simp add: upt_conv_Cons)
  next
    case False
    then show ?thesis by (subst fillLoop.simps) simp
  qed
qed

lemma drawToFill_foldl: "drawToFill s = foldl (\<lambda>t i. fillHand i t) s (refillOrder s)"
  by (simp add: drawToFill_def refillOrder_def fillLoop_foldl)

lemma refillOrder_rotate_mod:
  "refillOrder s = rotate (attacker s mod length (players s)) [0..<length (players s)]"
proof (cases "length (players s) = 0")
  case True
  then show ?thesis by (simp add: refillOrder_def)
next
  case False
  let ?n = "length (players s)"
  let ?a = "attacker s mod ?n"
  show ?thesis
  proof (rule nth_equalityI)
    show "length (refillOrder s) = length (rotate ?a [0..<?n])"
      by (simp add: refillOrder_def)
    fix i assume "i < length (refillOrder s)"
    then have i: "i < ?n" by (simp add: refillOrder_def)
    have lt: "(?a + i) mod ?n < ?n" using False by simp
    have "refillOrder s ! i = (attacker s + i) mod ?n"
      using i by (simp add: refillOrder_def)
    also have "\<dots> = (?a + i) mod ?n" by (simp add: mod_add_left_eq)
    also have "\<dots> = rotate ?a [0..<?n] ! i"
      using i lt by (simp add: nth_rotate)
    finally show "refillOrder s ! i = rotate ?a [0..<?n] ! i" .
  qed
qed

lemma refillOrder_rotate:
  "attacker s < length (players s) \<Longrightarrow>
   refillOrder s = rotate (attacker s) [0..<length (players s)]"
  using refillOrder_rotate_mod [of s] by simp

lemma refillOrder_set: "set (refillOrder s) = {0..<length (players s)}"
  by (simp add: refillOrder_rotate_mod)

lemma refillOrder_distinct: "distinct (refillOrder s)"
  by (simp add: refillOrder_rotate_mod)

lemma drawUpTo8_lengths:
  "length (fst (drawUpTo8 h dk)) = length h + drawCount h dk"
  "length (snd (drawUpTo8 h dk)) = length dk - drawCount h dk"
  by (auto simp: drawUpTo8_def drawCount_def)

lemma fillHand_drawUpTo8:
  "fillHand i s =
     s\<lparr>players := setHand i (fst (drawUpTo8 (hand (players s ! i)) (deck s))) (players s),
       deck := snd (drawUpTo8 (hand (players s ! i)) (deck s))\<rparr>"
  by (simp add: fillHand_def Let_def setHand_def drawWhile_drawUpTo8)

lemma fillHand_handSize:
  "i < length (players s) \<Longrightarrow>
   handSize (fillHand i s) j =
     (if j = i then handSize s i + min (8 - handSize s i) (length (deck s)) else handSize s j)"
  by (simp add: fillHand_drawUpTo8 handSize_def setHand_def drawUpTo8_lengths drawCount_def)

lemma fillHand_deck_length:
  "length (deck (fillHand i s)) = length (deck s) - min (8 - handSize s i) (length (deck s))"
  by (simp add: fillHand_drawUpTo8 drawUpTo8_lengths drawCount_def handSize_def)

lemma fillHand_step:
  assumes "i < length (players s)"
  shows "handSize s j \<le> handSize (fillHand i s) j"
    and "handSize (fillHand i s) j \<le> max 8 (handSize s j)"
    and "length (deck (fillHand i s)) \<le> length (deck s)"
    and "8 \<le> handSize (fillHand i s) i \<or> deck (fillHand i s) = []"
proof -
  note h = fillHand_handSize[OF assms]
  show "handSize s j \<le> handSize (fillHand i s) j"
    by (simp add: h)
  show "handSize (fillHand i s) j \<le> max 8 (handSize s j)"
    unfolding h by auto
  show "length (deck (fillHand i s)) \<le> length (deck s)"
    by (simp add: fillHand_deck_length)
  have "8 \<le> handSize (fillHand i s) i \<or> length (deck (fillHand i s)) = 0"
    unfolding h fillHand_deck_length by auto
  then show "8 \<le> handSize (fillHand i s) i \<or> deck (fillHand i s) = []" by simp
qed

lemma foldl_fillHand_props:
  assumes "\<forall>i \<in> set is. i < length (players s)"
  shows "length (players (foldl (\<lambda>t i. fillHand i t) s is)) = length (players s)
       \<and> (\<forall>j. handSize s j \<le> handSize (foldl (\<lambda>t i. fillHand i t) s is) j
             \<and> handSize (foldl (\<lambda>t i. fillHand i t) s is) j \<le> max 8 (handSize s j))
       \<and> length (deck (foldl (\<lambda>t i. fillHand i t) s is)) \<le> length (deck s)
       \<and> (\<forall>i \<in> set is. 8 \<le> handSize (foldl (\<lambda>t i. fillHand i t) s is) i
             \<or> deck (foldl (\<lambda>t i. fillHand i t) s is) = [])"
  using assms
proof (induction "is" rule: rev_induct)
  case Nil
  then show ?case by simp
next
  case (snoc i "is")
  let ?s1 = "foldl (\<lambda>t i. fillHand i t) s is"
  let ?s2 = "fillHand i ?s1"
  from snoc.prems have sub: "\<forall>k \<in> set is. k < length (players s)" and i: "i < length (players s)"
    by auto
  from snoc.IH[OF sub] have len: "length (players ?s1) = length (players s)"
    and hs: "\<And>j. handSize s j \<le> handSize ?s1 j" "\<And>j. handSize ?s1 j \<le> max 8 (handSize s j)"
    and dk: "length (deck ?s1) \<le> length (deck s)"
    and vis: "\<forall>k \<in> set is. 8 \<le> handSize ?s1 k \<or> deck ?s1 = []"
    by auto
  from i len have i1: "i < length (players ?s1)" by simp
  note st = fillHand_step[OF i1]
  have f: "foldl (\<lambda>t i. fillHand i t) s (is @ [i]) = ?s2" by simp
  have 1: "length (players ?s2) = length (players s)" using len by simp
  have 2: "\<forall>j. handSize s j \<le> handSize ?s2 j \<and> handSize ?s2 j \<le> max 8 (handSize s j)"
  proof
    fix j
    have "handSize s j \<le> handSize ?s2 j" using hs(1)[of j] st(1)[of j] by linarith
    moreover have "handSize ?s2 j \<le> max 8 (handSize s j)"
      using hs(2)[of j] st(2)[of j] by linarith
    ultimately show "handSize s j \<le> handSize ?s2 j \<and> handSize ?s2 j \<le> max 8 (handSize s j)" ..
  qed
  have 3: "length (deck ?s2) \<le> length (deck s)" using dk st(3) by linarith
  have 4: "\<forall>k \<in> set (is @ [i]). 8 \<le> handSize ?s2 k \<or> deck ?s2 = []"
  proof
    fix k assume "k \<in> set (is @ [i])"
    then consider "k = i" | "k \<in> set is" by auto
    then show "8 \<le> handSize ?s2 k \<or> deck ?s2 = []"
    proof cases
      case 1
      then show ?thesis using st(4) by simp
    next
      case 2
      with vis have "8 \<le> handSize ?s1 k \<or> deck ?s1 = []" by blast
      then show ?thesis
      proof
        assume "8 \<le> handSize ?s1 k"
        then show ?thesis using st(1)[of k] by linarith
      next
        assume "deck ?s1 = []"
        then show ?thesis using st(3) by simp
      qed
    qed
  qed
  from 1 2 3 4 show ?case unfolding f by blast
qed

lemma drawToFill_hands:
  assumes "i < length (players s)"
  shows "handSize (drawToFill s) i \<le> max 8 (handSize s i)"
    and "handSize s i \<le> handSize (drawToFill s) i"
    and "handSize (drawToFill s) i < 8 \<Longrightarrow> deck (drawToFill s) = []"
    and "length (players (drawToFill s)) = length (players s)"
proof -
  have v: "\<forall>k \<in> set (refillOrder s). k < length (players s)"
    by (simp add: refillOrder_set)
  note p = foldl_fillHand_props[OF v, folded drawToFill_foldl]
  from assms have m: "i \<in> set (refillOrder s)" by (simp add: refillOrder_set)
  show "handSize (drawToFill s) i \<le> max 8 (handSize s i)" using p by blast
  show "handSize s i \<le> handSize (drawToFill s) i" using p by blast
  show "length (players (drawToFill s)) = length (players s)" using p by blast
  assume "handSize (drawToFill s) i < 8"
  then show "deck (drawToFill s) = []" using p m by fastforce
qed

text \<open>
  Claim C8, as amended. \<open>drawToFill\<close> applies \<open>fillHand\<close> to every player index once,
  in the order of the indices modulo the player count that starts with the attacker.
  \<open>fillHand\<close> moves cards one by one from the end of the deck to the end of the hand
  until the hand has at least 8 cards or the deck is empty, that is \<open>drawCount\<close> cards.
  After the refill no hand is larger than the maximum of 8 and its size before the
  refill, and a hand below 8 cards means that the deck is empty.
\<close>

theorem refill_order_and_cap:
  "drawToFill s = foldl (\<lambda>t i. fillHand i t) s (refillOrder s)
   \<and> distinct (refillOrder s) \<and> set (refillOrder s) = {0..<length (players s)}
   \<and> (attacker s < length (players s) \<longrightarrow>
        refillOrder s = rotate (attacker s) [0..<length (players s)])
   \<and> fillHand i s =
        s\<lparr>players := setHand i (fst (drawUpTo8 (hand (players s ! i)) (deck s))) (players s),
          deck := snd (drawUpTo8 (hand (players s ! i)) (deck s))\<rparr>
   \<and> drawWhile h dk = drawUpTo8 h dk
   \<and> (i < length (players s) \<longrightarrow>
        handSize (drawToFill s) i \<le> max 8 (handSize s i) \<and>
        (handSize (drawToFill s) i < 8 \<longrightarrow> deck (drawToFill s) = []))"
  using drawToFill_foldl [of s] refillOrder_distinct [of s] refillOrder_set [of s]
    refillOrder_rotate [of s] fillHand_drawUpTo8 [of i s] drawWhile_drawUpTo8 [of h dk]
    drawToFill_hands(1,3) [of i s]
  by blast

theorem refill_order_and_cap_witness:
  "refillOrder takenGame = rotate 1 [0..<2]
   \<and> handSize (drawToFill takenGame) 0 \<le> 9
   \<and> handSize (drawToFill takenGame) 1 \<le> 8
   \<and> deck (drawToFill endGame) = []"
proof -
  have a: "attacker takenGame = 1 \<and> length (players takenGame) = 2
         \<and> handSize takenGame 0 = 9 \<and> handSize takenGame 1 = 7" by code_simp
  have e: "0 < length (players endGame) \<and> handSize (drawToFill endGame) 0 < 8" by code_simp
  from refill_order_and_cap [of takenGame 0]
  have r: "attacker takenGame < length (players takenGame) \<longrightarrow>
             refillOrder takenGame = rotate (attacker takenGame) [0..<length (players takenGame)]"
    and c0: "0 < length (players takenGame) \<longrightarrow>
             handSize (drawToFill takenGame) 0 \<le> max 8 (handSize takenGame 0)"
    by blast+
  from refill_order_and_cap [of takenGame 1]
  have c1: "1 < length (players takenGame) \<longrightarrow>
             handSize (drawToFill takenGame) 1 \<le> max 8 (handSize takenGame 1)"
    by blast
  from refill_order_and_cap [of endGame 0] e
  have "deck (drawToFill endGame) = []" by blast
  with r c0 c1 a show ?thesis by simp
qed

text \<open>
  The claim as it was stated fails: a hand above 8 cards stays above 8. When the
  defender of \<open>firstAttack\<close> takes the attack card, the refill leaves nine cards in
  that hand, with cards still in the deck.
\<close>

theorem refill_hand_cap_counterexample:
  "step dealtGame (PlayAttack 1 (Card R8 Hearts)) = Inr firstAttack
   \<and> defenderTakes firstAttack = Inr (checkForFinish ((drawToFill takenGame)\<lparr>phase := Attack\<rparr>))
   \<and> handSize (drawToFill takenGame) 0 = 9
   \<and> deck (drawToFill takenGame) \<noteq> []"
  by code_simp

section \<open>The deal and the trump card\<close>

lemma shuffleLoop_mset:
  "(\<forall>i. pick i \<le> i) \<Longrightarrow> k < length a \<Longrightarrow> mset (shuffleLoop pick k a) = mset a"
proof (induction k arbitrary: a)
  case 0
  then show ?case by simp
next
  case (Suc k)
  from Suc.prems have j: "pick (Suc k) < length a"
    by (meson le_less_trans)
  have sw: "mset (a[Suc k := a ! pick (Suc k), pick (Suc k) := a ! Suc k]) = mset a"
    using Suc.prems(2) j by (simp add: mset_swap)
  have "mset (shuffleLoop pick (Suc k) a) =
        mset (shuffleLoop pick k (a[Suc k := a ! pick (Suc k), pick (Suc k) := a ! Suc k]))"
    by (simp add: Let_def)
  also have "\<dots> = mset (a[Suc k := a ! pick (Suc k), pick (Suc k) := a ! Suc k])"
    using Suc.prems by (intro Suc.IH) simp_all
  finally show ?case using sw by simp
qed

lemma shuffle_mset: "(\<forall>i. pick i \<le> i) \<Longrightarrow> mset (shuffle pick a) = mset a"
proof (cases a)
  case Nil
  then show ?thesis by (simp add: shuffle_def)
next
  case (Cons x xs)
  assume "\<forall>i. pick i \<le> i"
  then show ?thesis using Cons by (simp add: shuffle_def shuffleLoop_mset)
qed

lemma makeDeck_distinct: "distinct makeDeck"
  by (simp add: makeDeck_def SUITS_def RANKS_def)

lemma makeDeck_length: "length makeDeck = 36"
  by (simp add: makeDeck_def SUITS_def RANKS_def)

lemma shuffle_makeDeck:
  assumes "\<forall>i. pick i \<le> i"
  shows "distinct (shuffle pick makeDeck)" and "length (shuffle pick makeDeck) = 36"
proof -
  have m: "mset (shuffle pick makeDeck) = mset makeDeck" using assms by (rule shuffle_mset)
  show "distinct (shuffle pick makeDeck)"
    using m makeDeck_distinct by (metis mset_eq_imp_distinct_iff)
  show "length (shuffle pick makeDeck) = 36"
    using m makeDeck_length by (metis size_mset)
qed

lemma handCards_setHand:
  assumes "i < length ps"
  shows "mset (handCards (setHand i h ps)) + mset (hand (ps ! i)) = mset (handCards ps) + mset h"
proof -
  have a: "ps = take i ps @ (ps ! i) # drop (Suc i) ps"
    using assms by (rule id_take_nth_drop)
  have b: "setHand i h ps = take i ps @ ((ps ! i)\<lparr>hand := h\<rparr>) # drop (Suc i) ps"
    using assms by (simp add: setHand_def upd_conv_take_nth_drop)
  have "mset (handCards ps) =
        mset (handCards (take i ps)) + mset (hand (ps ! i)) + mset (handCards (drop (Suc i) ps))"
    by (subst a) (simp add: handCards_def)
  moreover have "mset (handCards (setHand i h ps)) =
        mset (handCards (take i ps)) + mset h + mset (handCards (drop (Suc i) ps))"
    by (subst b) (simp add: handCards_def)
  ultimately show ?thesis by simp
qed

lemma setHand_length [simp]: "length (setHand i h ps) = length ps"
  by (simp add: setHand_def)

lemma dealRow_props:
  assumes "dealRow is ps dk = Some (ps', dk')" and "\<forall>i \<in> set is. i < length ps"
  shows "length ps' = length ps \<and> length is \<le> length dk
       \<and> dk' = take (length dk - length is) dk
       \<and> mset (handCards ps') + mset dk' = mset (handCards ps) + mset dk"
  using assms
proof (induction "is" arbitrary: ps dk)
  case Nil
  then show ?case by simp
next
  case (Cons p rest)
  from Cons.prems(1) have ne: "dk \<noteq> []" by (auto split: if_splits)
  let ?ps1 = "setHand p (hand (ps ! p) @ [last dk]) ps"
  from Cons.prems(1) ne have r: "dealRow rest ?ps1 (butlast dk) = Some (ps', dk')"
    by (simp add: setHand_def)
  from Cons.prems(2) have p: "p < length ps" and v: "\<forall>i \<in> set rest. i < length ?ps1" by simp_all
  note ih = Cons.IH[OF r v]
  from ih have l: "length ps' = length ps" by simp
  from ih have le: "length rest \<le> length (butlast dk)" by blast
  from ih have d: "dk' = take (length (butlast dk) - length rest) (butlast dk)" by blast
  from ih have m: "mset (handCards ps') + mset dk' = mset (handCards ?ps1) + mset (butlast dk)"
    by blast
  from ne have pos: "0 < length dk" by simp
  have lt: "length rest < length dk" using le pos unfolding length_butlast by arith
  then have le': "length (p # rest) \<le> length dk" by simp
  have d': "dk' = take (length dk - length (p # rest)) dk"
    using d lt by (simp add: take_butlast)
  have dkm: "mset dk = mset (butlast dk) + {#last dk#}"
    using ne by (metis append_butlast_last_id mset.simps(1) mset.simps(2) mset_append
        add_mset_add_single)
  from handCards_setHand[OF p, of "hand (ps ! p) @ [last dk]"]
  have "mset (handCards ?ps1) = mset (handCards ps) + {#last dk#}" by simp
  with m dkm have "mset (handCards ps') + mset dk' = mset (handCards ps) + mset dk"
    by simp
  with l le' d' show ?case by blast
qed

lemma dealRow_total:
  "length is \<le> length dk \<Longrightarrow> \<exists>r. dealRow is ps dk = Some r"
proof (induction "is" arbitrary: ps dk)
  case Nil
  then show ?case by simp
next
  case (Cons p rest)
  then have "dk \<noteq> []" and "length rest \<le> length (butlast dk)" by auto
  with Cons.IH show ?case by simp
qed

lemma dealLoop_props:
  assumes "dealLoop k n ps dk = Some (ps', dk')" and "length ps = n"
  shows "length ps' = n \<and> k * n \<le> length dk
       \<and> dk' = take (length dk - k * n) dk
       \<and> mset (handCards ps') + mset dk' = mset (handCards ps) + mset dk"
  using assms
proof (induction k arbitrary: ps dk)
  case 0
  then show ?case by simp
next
  case (Suc k)
  from Suc.prems(1) obtain ps1 dk1 where r: "dealRow [0..<n] ps dk = Some (ps1, dk1)"
    and l: "dealLoop k n ps1 dk1 = Some (ps', dk')"
    by (auto split: option.splits)
  have v: "\<forall>i \<in> set [0..<n]. i < length ps" using Suc.prems(2) by simp
  note row = dealRow_props[OF r v]
  from row have l1: "length ps1 = n" using Suc.prems(2) by simp
  from row have le1: "n \<le> length dk" by simp
  from row have d1: "dk1 = take (length dk - n) dk" by simp
  from row have m1: "mset (handCards ps1) + mset dk1 = mset (handCards ps) + mset dk" by blast
  from Suc.IH[OF l l1]
  have l2: "length ps' = n" and le2: "k * n \<le> length dk1"
    and d2: "dk' = take (length dk1 - k * n) dk1"
    and m2: "mset (handCards ps') + mset dk' = mset (handCards ps1) + mset dk1"
    by blast+
  have len1: "length dk1 = length dk - n" using d1 by simp
  have "Suc k * n \<le> length dk" using le1 le2 len1 by simp
  moreover have "dk' = take (length dk - Suc k * n) dk"
    using d1 d2 len1 by (simp add: min_def add.commute)
  ultimately show ?case using l2 m1 m2 by simp
qed

lemma dealLoop_total:
  "length ps = n \<Longrightarrow> k * n \<le> length dk \<Longrightarrow> \<exists>r. dealLoop k n ps dk = Some r"
proof (induction k arbitrary: ps dk)
  case 0
  then show ?case by simp
next
  case (Suc k)
  from Suc.prems have le: "n \<le> length dk" by simp
  then obtain r where "dealRow [0..<n] ps dk = Some r"
    using dealRow_total[of "[0..<n]" dk ps] by auto
  then obtain ps1 dk1 where r: "dealRow [0..<n] ps dk = Some (ps1, dk1)" by (cases r) auto
  have v: "\<forall>i \<in> set [0..<n]. i < length ps" using Suc.prems(1) by simp
  from dealRow_props[OF r v] have l1: "length ps1 = n" and d1: "length dk1 = length dk - n"
    using Suc.prems(1) le by simp_all
  have "k * n \<le> length dk1" using Suc.prems(2) d1 by simp
  from Suc.IH[OF l1 this] r show ?case by simp
qed

lemma handCards_players0: "handCards (map (\<lambda>i. \<lparr>pid = i, hand = []\<rparr>) xs) = []"
  by (induction xs) (simp_all add: handCards_def)

lemma newGame_Inr:
  assumes "newGame n pick = Inr g"
  obtains ps dk where
    "dealLoop 8 n (map (\<lambda>i. \<lparr>pid = i, hand = []\<rparr>) [0..<n]) (shuffle pick makeDeck) = Some (ps, dk)"
    "dk \<noteq> []"
    "g = \<lparr>players = ps, deck = last dk # butlast dk, trump = suit (last dk), table = [],
          attacker = findFirstAttacker ps (suit (last dk)),
          defender = (findFirstAttacker ps (suit (last dk)) + 1) mod n,
          phase = Attack, maxAdds = 0\<rparr>"
  using assms by (auto simp: newGame_def Let_def split: option.splits if_splits)

lemma newGame_conserves:
  assumes pick: "\<forall>i. pick i \<le> i" and g: "newGame n pick = Inr g"
  shows "mset (inPlay g) = mset makeDeck"
proof -
  from g obtain ps dk where
    d: "dealLoop 8 n (map (\<lambda>i. \<lparr>pid = i, hand = []\<rparr>) [0..<n]) (shuffle pick makeDeck) = Some (ps, dk)"
    and ne: "dk \<noteq> []"
    and gs: "players g = ps" "deck g = last dk # butlast dk" "table g = []"
    by (rule newGame_Inr) simp
  have "length (map (\<lambda>i. \<lparr>pid = i, hand = []\<rparr>) [0..<n]) = n" by simp
  from dealLoop_props[OF d this]
  have "mset (handCards ps) + mset dk =
        mset (handCards (map (\<lambda>i. \<lparr>pid = i, hand = []\<rparr>) [0..<n])) + mset (shuffle pick makeDeck)"
    by blast
  then have c: "mset (handCards ps) + mset dk = mset (shuffle pick makeDeck)"
    by (simp add: handCards_players0)
  have b: "mset (last dk # butlast dk) = mset dk"
  proof -
    have "mset (last dk # butlast dk) = mset (butlast dk @ [last dk])" by simp
    also have "butlast dk @ [last dk] = dk" using ne by (rule append_butlast_last_id)
    finally show ?thesis .
  qed
  have "mset (inPlay g) = mset (last dk # butlast dk) + mset (handCards ps)"
    using gs by (simp add: inPlay_def tableCards_def)
  also have "\<dots> = mset (handCards ps) + mset dk" by (simp only: b add.commute)
  also have "\<dots> = mset (shuffle pick makeDeck)" by (rule c)
  also have "\<dots> = mset makeDeck" using pick by (rule shuffle_mset)
  finally show ?thesis .
qed

lemma newGame_deck:
  assumes n: "n \<in> {2, 3, 4}" and pick: "\<forall>i. pick i \<le> i"
  shows "\<exists>g. newGame n pick = Inr g
          \<and> deck g = (shuffle pick makeDeck ! (35 - 8 * n)) # take (35 - 8 * n) (shuffle pick makeDeck)
          \<and> trump g = suit (shuffle pick makeDeck ! (35 - 8 * n))
          \<and> length (players g) = n"
proof -
  let ?sh = "shuffle pick makeDeck"
  let ?p0 = "map (\<lambda>i. \<lparr>pid = i, hand = []\<rparr>) [0..<n]"
  have len: "length ?sh = 36" using pick by (rule shuffle_makeDeck)
  from n have n8: "8 * n \<le> 32" by auto
  have "\<exists>r. dealLoop 8 n ?p0 ?sh = Some r"
    using n8 len by (intro dealLoop_total) simp_all
  then obtain ps dk where d: "dealLoop 8 n ?p0 ?sh = Some (ps, dk)" by (metis surj_pair)
  have "length ?p0 = n" by simp
  note pr = dealLoop_props[OF d this]
  from pr have lps: "length ps = n" by blast
  from pr have dk: "dk = take (36 - 8 * n) ?sh" using len by simp
  then have ldk: "length dk = 36 - 8 * n" using len by simp
  with n8 have ne: "dk \<noteq> []" by auto
  have la: "last dk = ?sh ! (35 - 8 * n)"
    using ne ldk n8 dk by (simp add: last_conv_nth)
  have bl: "butlast dk = take (35 - 8 * n) ?sh"
    using dk len n8 by (simp add: butlast_take)
  let ?g = "\<lparr>players = ps, deck = last dk # butlast dk, trump = suit (last dk), table = [],
          attacker = findFirstAttacker ps (suit (last dk)),
          defender = (findFirstAttacker ps (suit (last dk)) + 1) mod n,
          phase = Attack, maxAdds = 0\<rparr>"
  have "newGame n pick = Inr ?g" using d ne by (simp add: newGame_def Let_def)
  moreover have "deck ?g = (?sh ! (35 - 8 * n)) # take (35 - 8 * n) ?sh" using la bl by simp
  moreover have "trump ?g = suit (?sh ! (35 - 8 * n))" using la by simp
  moreover have "length (players ?g) = n" using lps by simp
  ultimately show ?thesis by blast
qed

lemma deckPrefix_refl: "deck s' = deck s \<Longrightarrow> deckPrefix s' s"
  by (simp add: deckPrefix_def)

lemma deckPrefix_trans: "deckPrefix s2 s1 \<Longrightarrow> deckPrefix s1 s \<Longrightarrow> deckPrefix s2 s"
proof -
  assume a: "deckPrefix s2 s1" and b: "deckPrefix s1 s"
  from a have "deck s2 = take (length (deck s2)) (deck s1)" by (simp add: deckPrefix_def)
  also from b have "\<dots> = take (length (deck s2)) (take (length (deck s1)) (deck s))"
    by (simp add: deckPrefix_def)
  also have "\<dots> = take (min (length (deck s2)) (length (deck s1))) (deck s)" by simp
  finally have e: "deck s2 = take (min (length (deck s2)) (length (deck s1))) (deck s)" .
  then have "length (deck s2) = length (take (min (length (deck s2)) (length (deck s1))) (deck s))"
    by (rule arg_cong)
  then have "length (deck s2) \<le> min (length (deck s2)) (length (deck s1))" by simp
  then have "min (length (deck s2)) (length (deck s1)) = length (deck s2)" by simp
  with e show ?thesis by (simp add: deckPrefix_def)
qed

lemma fillHand_deckPrefix: "deckPrefix (fillHand i s) s"
  by (simp add: deckPrefix_def fillHand_drawUpTo8 drawUpTo8_def)

lemma foldl_fillHand_deckPrefix: "deckPrefix (foldl (\<lambda>t i. fillHand i t) s is) s"
proof (induction "is" rule: rev_induct)
  case Nil
  show ?case by (simp add: deckPrefix_def)
next
  case (snoc i "is")
  have "deckPrefix (fillHand i (foldl (\<lambda>t i. fillHand i t) s is)) (foldl (\<lambda>t i. fillHand i t) s is)"
    by (rule fillHand_deckPrefix)
  from deckPrefix_trans[OF this snoc.IH] show ?case by simp
qed

lemma drawToFill_deckPrefix: "deckPrefix (drawToFill s) s"
  unfolding drawToFill_foldl by (rule foldl_fillHand_deckPrefix)

lemma deckPrefix_cong: "deckPrefix s' s \<Longrightarrow> deck t' = deck s' \<Longrightarrow> deck t = deck s \<Longrightarrow> deckPrefix t' t"
  by (simp add: deckPrefix_def)

lemma checkForFinish_deck [simp]: "deck (checkForFinish s) = deck s"
  by (simp add: checkForFinish_def)

lemma resolveRound_deckPrefix: "deckPrefix (resolveRound s) s"
proof -
  let ?s2 = "s\<lparr>table := [], attacker := defender s,
               defender := (defender s + 1) mod length (players s), phase := Cleanup\<rparr>"
  have "resolveRound s = checkForFinish ((drawToFill ?s2)\<lparr>phase := Attack\<rparr>)"
    by (simp add: resolveRound_def Let_def)
  then have "deck (resolveRound s) = deck (drawToFill ?s2)" by simp
  from deckPrefix_cong[OF drawToFill_deckPrefix[of ?s2] this] show ?thesis by simp
qed

lemma step_deckPrefix:
  assumes "step g a = Inr g'"
  shows "deckPrefix g' g"
proof (cases a)
  case (PlayAttack p c)
  with assms have "deck g' = deck g"
    by (auto simp: step_def playAttack_def Let_def split: if_splits option.splits)
  then show ?thesis by (rule deckPrefix_refl)
next
  case (PlayDefend p i c)
  with assms obtain s where s: "defendStep g p i c = Inr s"
    and g': "g' = (if allDefended s then resolveRound s else s)"
    by (auto simp: step_def playDefend_def split: sum.splits if_splits)
  from s have d: "deck s = deck g"
    by (auto simp: defendStep_def Let_def split: if_splits option.splits)
  then have "deckPrefix s g" by (rule deckPrefix_refl)
  with g' resolveRound_deckPrefix[of s] show ?thesis
    by (auto intro: deckPrefix_trans)
next
  case (AddAttack p c)
  with assms have "deck g' = deck g"
    by (auto simp: step_def addAttack_def Let_def split: if_splits option.splits)
  then show ?thesis by (rule deckPrefix_refl)
next
  case DefenderTakes
  let ?d = "defender g"
  let ?ps = "setHand ?d (hand (players g ! ?d) @ tableCards (table g)) (players g)"
  let ?s = "g\<lparr>players := ?ps, table := [], defender := (attacker g + 1) mod length ?ps\<rparr>"
  from assms DefenderTakes have "g' = checkForFinish ((drawToFill ?s)\<lparr>phase := Attack\<rparr>)"
    by (auto simp: step_def defenderTakes_def Let_def split: if_splits)
  then have "deck g' = deck (drawToFill ?s)" by simp
  from deckPrefix_cong[OF drawToFill_deckPrefix[of ?s] this] show ?thesis by simp
qed

lemma run_deckPrefix:
  "run (g, disc) as = (g', disc') \<Longrightarrow> deckPrefix g' g"
proof (induction as arbitrary: g disc)
  case Nil
  then show ?case by (simp add: deckPrefix_def)
next
  case (Cons a as)
  show ?case
  proof (cases "step g a")
    case (Inl e)
    with Cons show ?thesis by simp
  next
    case (Inr g1)
    with Cons.prems have "run (g1, disc @ discarded g a) as = (g', disc')" by simp
    from Cons.IH[OF this] step_deckPrefix[OF Inr] show ?thesis by (rule deckPrefix_trans)
  qed
qed

lemma run_deck_bottom:
  assumes "deck (fst (run (g, []) acts)) \<noteq> []"
  shows "hd (deck (fst (run (g, []) acts))) = hd (deck g)"
proof -
  let ?g' = "fst (run (g, []) acts)"
  have "run (g, []) acts = (?g', snd (run (g, []) acts))" by simp
  then have "deckPrefix ?g' g" by (rule run_deckPrefix)
  then have e: "deck ?g' = take (length (deck ?g')) (deck g)" by (simp add: deckPrefix_def)
  from assms have "0 < length (deck ?g')" by simp
  then have "hd (take (length (deck ?g')) (deck g)) = hd (deck g)" by (simp add: hd_take)
  with e show ?thesis by simp
qed

text \<open>
  Claim C6, as amended. For 2, 3 or 4 players \<open>newGame\<close> succeeds, and the card popped
  after the deal (position \<open>35 - 8 * n\<close> of the shuffled deck), whose suit becomes the
  trump suit, is put back at index 0 of the deck. The draws take the last element, so
  the trump card lies at the end opposite to the draws: at least three other cards lie
  above it, it is none of them, and the next card drawn is not the trump card. It stays
  at index 0 through every sequence of actions for as long as the deck is not empty,
  so it is the last card of the deck to be drawn.
\<close>

theorem trump_card_at_bottom:
  "n \<in> {2, 3, 4} \<Longrightarrow> (\<forall>i. pick i \<le> i) \<Longrightarrow>
     \<exists>g rest. newGame n pick = Inr g
       \<and> deck g = (shuffle pick makeDeck ! (35 - 8 * n)) # rest
       \<and> rest = take (35 - 8 * n) (shuffle pick makeDeck)
       \<and> trump g = suit (shuffle pick makeDeck ! (35 - 8 * n))
       \<and> 3 \<le> length rest
       \<and> shuffle pick makeDeck ! (35 - 8 * n) \<notin> set rest
       \<and> last (deck g) \<noteq> hd (deck g)
       \<and> (\<forall>acts. deck (fst (run (g, []) acts)) \<noteq> [] \<longrightarrow>
             hd (deck (fst (run (g, []) acts))) = shuffle pick makeDeck ! (35 - 8 * n))"
proof -
  assume n: "n \<in> {2, 3, 4}" and pick: "\<forall>i. pick i \<le> i"
  let ?sh = "shuffle pick makeDeck"
  let ?c = "?sh ! (35 - 8 * n)"
  let ?rest = "take (35 - 8 * n) ?sh"
  from newGame_deck[OF n pick] obtain g where g: "newGame n pick = Inr g"
    and dk: "deck g = ?c # ?rest" and tr: "trump g = suit ?c" by blast
  have len: "length ?sh = 36" and dist: "distinct ?sh" using pick by (rule shuffle_makeDeck)+
  from n have n8: "8 * n \<le> 32" by auto
  have l3: "3 \<le> length ?rest" using len n8 by simp
  have "take (36 - 8 * n) ?sh = ?rest @ [?c]"
  proof -
    have "Suc (35 - 8 * n) = 36 - 8 * n" using n8 by simp
    moreover have "35 - 8 * n < length ?sh" using len n8 by simp
    ultimately show ?thesis by (metis take_Suc_conv_app_nth)
  qed
  moreover have "distinct (take (36 - 8 * n) ?sh)" using dist by (rule distinct_take)
  ultimately have notin: "?c \<notin> set ?rest" by simp
  from l3 have ne: "?rest \<noteq> []" by auto
  then have "last (deck g) = last ?rest" using dk by simp
  also have "\<dots> \<in> set ?rest" using ne by (rule last_in_set)
  finally have lh: "last (deck g) \<noteq> hd (deck g)" using notin dk by auto
  have bottom: "\<forall>acts. deck (fst (run (g, []) acts)) \<noteq> [] \<longrightarrow>
                  hd (deck (fst (run (g, []) acts))) = ?c"
    using run_deck_bottom[of g] dk by simp
  from g dk tr l3 notin lh bottom show ?thesis by blast
qed

theorem trump_card_at_bottom_witness:
  "newGame 2 noSwap = Inr dealtGame
   \<and> deck dealtGame = Card R7 Hearts # take 19 makeDeck
   \<and> trump dealtGame = Hearts
   \<and> last (deck dealtGame) \<noteq> hd (deck dealtGame)
   \<and> hd (deck (fst (run (dealtGame, []) samplePlay))) = Card R7 Hearts"
proof -
  have h1: "(2::nat) \<in> {2, 3, 4}" by simp
  have h2: "\<forall>i. noSwap i \<le> i" by (simp add: noSwap_def)
  have e: "newGame 2 noSwap = Inr dealtGame" unfolding dealtGame_def by code_simp
  have s: "shuffle noSwap makeDeck ! (35 - 8 * 2) = Card R7 Hearts
         \<and> take (35 - 8 * 2) (shuffle noSwap makeDeck) = take 19 makeDeck" by code_simp
  have ne: "deck (fst (run (dealtGame, []) samplePlay)) \<noteq> []" by code_simp
  from trump_card_at_bottom [OF h1 h2] obtain g rest where
    g: "newGame 2 noSwap = Inr g"
    and d: "deck g = (shuffle noSwap makeDeck ! (35 - 8 * 2)) # rest"
    and r: "rest = take (35 - 8 * 2) (shuffle noSwap makeDeck)"
    and t: "trump g = suit (shuffle noSwap makeDeck ! (35 - 8 * 2))"
    and l: "last (deck g) \<noteq> hd (deck g)"
    and b: "\<forall>acts. deck (fst (run (g, []) acts)) \<noteq> [] \<longrightarrow>
              hd (deck (fst (run (g, []) acts))) = shuffle noSwap makeDeck ! (35 - 8 * 2)"
    by blast
  from g e have eq: "g = dealtGame" by simp
  from s have s1: "shuffle noSwap makeDeck ! (35 - 8 * 2) = Card R7 Hearts"
    and s2: "take (35 - 8 * 2) (shuffle noSwap makeDeck) = take 19 makeDeck" by blast+
  have "deck dealtGame = Card R7 Hearts # take 19 makeDeck"
    using d unfolding eq r s1 s2 .
  moreover have "trump dealtGame = Hearts" using t unfolding eq s1 by simp
  moreover have "last (deck dealtGame) \<noteq> hd (deck dealtGame)" using l unfolding eq .
  moreover have "hd (deck (fst (run (dealtGame, []) samplePlay))) = Card R7 Hearts"
    using b ne unfolding eq s1 by blast
  ultimately show ?thesis using e by blast
qed

text \<open>
  The claim as it was stated fails: in the two-player game dealt from the ordered deck
  the trump card is the seven of hearts at index 0, the next card drawn is the six of
  hearts, and a refill of a whole hand of eight cards does not reach the trump card.
\<close>

theorem trump_card_next_draw_counterexample:
  "newGame 2 noSwap = Inr dealtGame
   \<and> trump dealtGame = Hearts
   \<and> deck dealtGame ! 0 = Card R7 Hearts
   \<and> last (deck dealtGame) = Card R6 Hearts
   \<and> fst (drawWhile [] (deck dealtGame)) =
       [Card R6 Hearts, Card RA Diamonds, Card RK Diamonds, Card RQ Diamonds,
        Card RJ Diamonds, Card R10 Diamonds, Card R9 Diamonds, Card R8 Diamonds]"
  unfolding dealtGame_def by code_simp

section \<open>Conservation of the cards\<close>

lemma findIndex_Some:
  "findIndex P xs = Some i \<Longrightarrow> i < length xs \<and> P (xs ! i)"
proof (induction xs arbitrary: i)
  case Nil
  then show ?case by simp
next
  case (Cons x xs)
  show ?case
  proof (cases "P x")
    case True
    with Cons.prems show ?thesis by simp
  next
    case False
    with Cons.prems obtain k where "findIndex P xs = Some k" and "i = Suc k" by auto
    with Cons.IH show ?thesis by simp
  qed
qed

lemma splice1_mset: "i < length xs \<Longrightarrow> mset (splice1 i xs) + {#xs ! i#} = mset xs"
proof -
  assume "i < length xs"
  then have "xs = take i xs @ xs ! i # drop (Suc i) xs" by (rule id_take_nth_drop)
  then have "mset xs = mset (take i xs @ xs ! i # drop (Suc i) xs)" by (rule arg_cong)
  then show ?thesis by (simp add: splice1_def)
qed

lemma card_id_eq: "card_id x = card_id c \<Longrightarrow> x = c"
  by (simp add: card_id_def)

lemma take_card_from_hand:
  assumes "findIndex (\<lambda>x. card_id x = card_id c) (hand (ps ! p)) = Some idx" and "p < length ps"
  shows "mset (handCards (setHand p (splice1 idx (hand (ps ! p))) ps)) + {#c#} = mset (handCards ps)"
proof -
  from findIndex_Some[OF assms(1)] have i: "idx < length (hand (ps ! p))"
    and c: "hand (ps ! p) ! idx = c" by (auto dest: card_id_eq)
  from splice1_mset[OF i] c
  have s: "mset (splice1 idx (hand (ps ! p))) + {#c#} = mset (hand (ps ! p))" by simp
  from handCards_setHand[OF assms(2), of "splice1 idx (hand (ps ! p))"]
  have "mset (handCards (setHand p (splice1 idx (hand (ps ! p))) ps)) + mset (hand (ps ! p)) =
        mset (handCards ps) + mset (splice1 idx (hand (ps ! p)))" .
  then have "mset (handCards (setHand p (splice1 idx (hand (ps ! p))) ps))
               + (mset (splice1 idx (hand (ps ! p))) + {#c#}) =
             mset (handCards ps) + mset (splice1 idx (hand (ps ! p)))"
    by (simp only: s)
  then show ?thesis by simp
qed

lemma tableCards_append [simp]: "tableCards (xs @ ys) = tableCards xs @ tableCards ys"
  by (simp add: tableCards_def)

lemma tableCards_defend:
  assumes "i < length tbl" and "defend (tbl ! i) = None"
  shows "mset (tableCards (tbl[i := (tbl ! i)\<lparr>defend := Some c\<rparr>])) = mset (tableCards tbl) + {#c#}"
proof -
  have a: "tbl = take i tbl @ (tbl ! i) # drop (Suc i) tbl"
    using assms(1) by (rule id_take_nth_drop)
  have b: "tbl[i := (tbl ! i)\<lparr>defend := Some c\<rparr>] =
           take i tbl @ ((tbl ! i)\<lparr>defend := Some c\<rparr>) # drop (Suc i) tbl"
    using assms(1) by (rule upd_conv_take_nth_drop)
  have "mset (tableCards tbl) =
        mset (tableCards (take i tbl)) + {#attack (tbl ! i)#} + mset (tableCards (drop (Suc i) tbl))"
    by (subst a) (simp add: tableCards_def assms(2))
  moreover have "mset (tableCards (tbl[i := (tbl ! i)\<lparr>defend := Some c\<rparr>])) =
        mset (tableCards (take i tbl)) + {#attack (tbl ! i), c#} + mset (tableCards (drop (Suc i) tbl))"
    by (subst b) (simp add: tableCards_def)
  ultimately show ?thesis by simp
qed

lemma playAttack_conserves:
  assumes "playAttack g p c = Inr g'"
  shows "mset (inPlay g') = mset (inPlay g)"
proof -
  from assms obtain idx where
    p: "p < length (players g)"
    and f: "findIndex (\<lambda>x. card_id x = card_id c) (hand (players g ! p)) = Some idx"
    and g': "players g' = setHand p (splice1 idx (hand (players g ! p))) (players g)"
      "table g' = table g @ [\<lparr>attack = c, defend = None, by_player = p\<rparr>]"
      "deck g' = deck g"
    by (auto simp: playAttack_def Let_def split: if_splits option.splits)
  from take_card_from_hand[OF f p] show ?thesis
    by (simp add: inPlay_def g' tableCards_def)
qed

lemma addAttack_conserves:
  assumes "addAttack g p c = Inr g'"
  shows "mset (inPlay g') = mset (inPlay g)"
proof -
  from assms obtain idx where
    p: "p < length (players g)"
    and f: "findIndex (\<lambda>x. card_id x = card_id c) (hand (players g ! p)) = Some idx"
    and g': "players g' = setHand p (splice1 idx (hand (players g ! p))) (players g)"
      "table g' = table g @ [\<lparr>attack = c, defend = None, by_player = p\<rparr>]"
      "deck g' = deck g"
    by (auto simp: addAttack_def Let_def split: if_splits option.splits)
  from take_card_from_hand[OF f p] show ?thesis
    by (simp add: inPlay_def g' tableCards_def)
qed

lemma defendStep_conserves:
  assumes "defendStep g p i c = Inr s"
  shows "mset (inPlay s) = mset (inPlay g)"
proof -
  from assms obtain idx where
    p: "p < length (players g)" and i: "i < length (table g)"
    and n: "defend (table g ! i) = None"
    and f: "findIndex (\<lambda>x. card_id x = card_id c) (hand (players g ! p)) = Some idx"
    and s: "players s = setHand p (splice1 idx (hand (players g ! p))) (players g)"
      "table s = (table g)[i := (table g ! i)\<lparr>defend := Some c\<rparr>]"
      "deck s = deck g"
    by (auto simp: defendStep_def Let_def split: if_splits option.splits)
  from take_card_from_hand[OF f p] tableCards_defend[OF i n, of c] show ?thesis
    by (simp add: inPlay_def s)
qed

lemma drawUpTo8_mset: "mset (fst (drawUpTo8 h dk)) + mset (snd (drawUpTo8 h dk)) = mset h + mset dk"
proof -
  let ?m = "length dk - drawCount h dk"
  have "mset (take ?m dk @ drop ?m dk) = mset dk" by simp
  then have "mset (take ?m dk) + mset (drop ?m dk) = mset dk" by (simp only: mset_append)
  then have "mset (drop ?m dk) + mset (take ?m dk) = mset dk" by (simp only: add.commute)
  then show ?thesis by (simp add: drawUpTo8_def add.assoc)
qed

lemma fillHand_conserves:
  assumes "i < length (players s)"
  shows "mset (inPlay (fillHand i s)) = mset (inPlay s)"
proof -
  let ?r = "drawUpTo8 (hand (players s ! i)) (deck s)"
  from handCards_setHand[OF assms, of "fst ?r"]
  have A: "mset (handCards (setHand i (fst ?r) (players s))) + mset (hand (players s ! i)) =
        mset (handCards (players s)) + mset (fst ?r)" .
  have B: "mset (fst ?r) + mset (snd ?r) = mset (hand (players s ! i)) + mset (deck s)"
    by (rule drawUpTo8_mset)
  have "(mset (handCards (setHand i (fst ?r) (players s))) + mset (hand (players s ! i)))
          + (mset (fst ?r) + mset (snd ?r)) =
        (mset (handCards (players s)) + mset (fst ?r))
          + (mset (hand (players s ! i)) + mset (deck s))"
    by (simp only: A B)
  then have "mset (snd ?r) + mset (handCards (setHand i (fst ?r) (players s))) =
        mset (deck s) + mset (handCards (players s))"
    by (simp add: ac_simps)
  then show ?thesis by (simp add: fillHand_drawUpTo8 inPlay_def)
qed

lemma foldl_fillHand_conserves:
  "\<forall>i \<in> set is. i < length (players s) \<Longrightarrow>
   mset (inPlay (foldl (\<lambda>t i. fillHand i t) s is)) = mset (inPlay s)"
proof (induction "is" arbitrary: s)
  case Nil
  then show ?case by simp
next
  case (Cons i "is")
  from Cons.prems have i: "i < length (players s)"
    and v: "\<forall>k \<in> set is. k < length (players (fillHand i s))" by simp_all
  from Cons.IH[OF v] fillHand_conserves[OF i] show ?case by simp
qed

lemma drawToFill_conserves: "mset (inPlay (drawToFill s)) = mset (inPlay s)"
proof -
  have "\<forall>i \<in> set (refillOrder s). i < length (players s)" by (simp add: refillOrder_set)
  then show ?thesis unfolding drawToFill_foldl by (rule foldl_fillHand_conserves)
qed

lemma inPlay_phase [simp]: "inPlay (s\<lparr>phase := ph\<rparr>) = inPlay s"
  by (simp add: inPlay_def)

lemma checkForFinish_inPlay [simp]: "inPlay (checkForFinish s) = inPlay s"
  by (simp add: checkForFinish_def)

lemma resolveRound_conserves:
  "mset (inPlay (resolveRound s)) + mset (tableCards (table s)) = mset (inPlay s)"
proof -
  let ?s2 = "s\<lparr>table := [], attacker := defender s,
               defender := (defender s + 1) mod length (players s), phase := Cleanup\<rparr>"
  have "resolveRound s = checkForFinish ((drawToFill ?s2)\<lparr>phase := Attack\<rparr>)"
    by (simp add: resolveRound_def Let_def)
  then have "mset (inPlay (resolveRound s)) = mset (inPlay ?s2)"
    by (simp add: drawToFill_conserves)
  then show ?thesis by (simp add: inPlay_def tableCards_def)
qed

lemma defenderTakes_conserves:
  assumes "defenderTakes g = Inr g'"
  shows "mset (inPlay g') = mset (inPlay g)"
proof -
  let ?d = "defender g"
  let ?ps = "setHand ?d (hand (players g ! ?d) @ tableCards (table g)) (players g)"
  let ?s = "g\<lparr>players := ?ps, table := [], defender := (attacker g + 1) mod length ?ps\<rparr>"
  from assms have d: "?d < length (players g)"
    and g': "g' = checkForFinish ((drawToFill ?s)\<lparr>phase := Attack\<rparr>)"
    by (auto simp: defenderTakes_def Let_def split: if_splits)
  from g' have "mset (inPlay g') = mset (inPlay ?s)" by (simp add: drawToFill_conserves)
  moreover from handCards_setHand[OF d, of "hand (players g ! ?d) @ tableCards (table g)"]
  have "mset (handCards ?ps) = mset (handCards (players g)) + mset (tableCards (table g))"
    by simp
  ultimately show ?thesis by (simp add: inPlay_def tableCards_def)
qed

lemma step_conserves:
  assumes "step g a = Inr g'"
  shows "mset (inPlay g') + mset (discarded g a) = mset (inPlay g)"
proof (cases a)
  case (PlayAttack p c)
  with assms show ?thesis by (simp add: step_def discarded_def playAttack_conserves)
next
  case (PlayDefend p i c)
  with assms have pd: "playDefend g p i c = Inr g'" by (simp add: step_def)
  then obtain s where s: "defendStep g p i c = Inr s"
    and g': "g' = (if allDefended s then resolveRound s else s)"
    by (auto simp: playDefend_def split: sum.splits if_splits)
  from defendStep_conserves[OF s] resolveRound_conserves[of s] show ?thesis
    by (simp add: discarded_def PlayDefend s g')
next
  case (AddAttack p c)
  with assms show ?thesis by (simp add: step_def discarded_def addAttack_conserves)
next
  case DefenderTakes
  with assms show ?thesis by (simp add: step_def discarded_def defenderTakes_conserves)
qed

lemma run_conserves:
  "run (g, disc) as = (g', disc') \<Longrightarrow>
   mset (inPlay g') + mset disc' = mset (inPlay g) + mset disc"
proof (induction as arbitrary: g disc)
  case Nil
  then show ?case by simp
next
  case (Cons a as)
  show ?case
  proof (cases "step g a")
    case (Inl e)
    with Cons show ?thesis by simp
  next
    case (Inr g1)
    with Cons.prems have "run (g1, disc @ discarded g a) as = (g', disc')" by simp
    from Cons.IH[OF this] step_conserves[OF Inr] show ?thesis
      by (simp add: add.assoc[symmetric])
  qed
qed

text \<open>
  Claim C1. In every state reached from \<open>newGame\<close> by a sequence of actions (a rejected
  action leaves the state as it is), the deck, the hands, the cards of the table and
  the cards dropped at the resolutions so far are together exactly the 36 cards of
  \<open>makeDeck\<close>: the same multiset, hence no card twice and none missing.
\<close>

theorem conservation:
  "(\<forall>i. pick i \<le> i) \<Longrightarrow> newGame n pick = Inr g0 \<Longrightarrow>
   run (g0, []) acts = (g, disc) \<Longrightarrow>
     mset (deck g) + mset (handCards (players g)) + mset (tableCards (table g)) + mset disc
       = mset makeDeck
   \<and> distinct (deck g @ handCards (players g) @ tableCards (table g) @ disc)
   \<and> distinct makeDeck \<and> length makeDeck = 36"
proof -
  assume pick: "\<forall>i. pick i \<le> i" and g0: "newGame n pick = Inr g0"
    and r: "run (g0, []) acts = (g, disc)"
  from run_conserves[OF r] newGame_conserves[OF pick g0]
  have "mset (inPlay g) + mset disc = mset makeDeck" by simp
  then have m: "mset (deck g @ handCards (players g) @ tableCards (table g) @ disc) = mset makeDeck"
    by (simp add: inPlay_def add.assoc)
  then have "distinct (deck g @ handCards (players g) @ tableCards (table g) @ disc)"
    using makeDeck_distinct by (metis mset_eq_imp_distinct_iff)
  with m show ?thesis by (simp add: makeDeck_distinct makeDeck_length add.assoc)
qed

theorem conservation_witness:
  "snd (run (dealtGame, []) samplePlay) = [Card R8 Hearts, Card R9 Hearts]
   \<and> mset (deck (fst (run (dealtGame, []) samplePlay)))
       + mset (handCards (players (fst (run (dealtGame, []) samplePlay))))
       + mset (tableCards (table (fst (run (dealtGame, []) samplePlay))))
       + mset [Card R8 Hearts, Card R9 Hearts] = mset makeDeck"
proof -
  have h: "\<forall>i. noSwap i \<le> i" by (simp add: noSwap_def)
  have e: "newGame 2 noSwap = Inr dealtGame" unfolding dealtGame_def by code_simp
  have d: "snd (run (dealtGame, []) samplePlay) = [Card R8 Hearts, Card R9 Hearts]"
    by code_simp
  have r: "run (dealtGame, []) samplePlay =
           (fst (run (dealtGame, []) samplePlay), snd (run (dealtGame, []) samplePlay))"
    by simp
  from conservation [OF h e r] d show ?thesis by (simp only:)
qed

section \<open>A take outside the phase Defend\<close>





lemma fillHand_fields [simp]:
  "table (fillHand i s) = table s" "defender (fillHand i s) = defender s"
  "phase (fillHand i s) = phase s"
  by (simp_all add: fillHand_drawUpTo8)

lemma foldl_fillHand_fields:
  "table (foldl (\<lambda>t i. fillHand i t) s is) = table s
   \<and> attacker (foldl (\<lambda>t i. fillHand i t) s is) = attacker s
   \<and> defender (foldl (\<lambda>t i. fillHand i t) s is) = defender s
   \<and> phase (foldl (\<lambda>t i. fillHand i t) s is) = phase s
   \<and> length (players (foldl (\<lambda>t i. fillHand i t) s is)) = length (players s)"
  by (induction "is" rule: rev_induct) simp_all

lemma drawToFill_fields [simp]:
  "table (drawToFill s) = table s" "attacker (drawToFill s) = attacker s"
  "defender (drawToFill s) = defender s" "phase (drawToFill s) = phase s"
  "length (players (drawToFill s)) = length (players s)"
  using foldl_fillHand_fields [of s "refillOrder s"] by (simp_all add: drawToFill_foldl)


lemma checkForFinish_fields [simp]:
  "players (checkForFinish s) = players s" "table (checkForFinish s) = table s"
  "attacker (checkForFinish s) = attacker s" "defender (checkForFinish s) = defender s"
  by (simp_all add: checkForFinish_def)








section \<open>Clicks outside their phase or by another player\<close>

lemma resolveRound_table [simp]: "table (resolveRound s) = []"
  by (simp add: resolveRound_def Let_def)

lemma defendStep_table_length:
  "defendStep g p i c = Inr s \<Longrightarrow> length (table s) = length (table g)"
  by (auto simp: defendStep_def Let_def split: if_splits option.splits)

lemma playDefend_table_length:
  assumes "playDefend g p i c = Inr g'"
  shows "length (table g') \<le> length (table g)"
proof -
  from assms obtain s where s: "defendStep g p i c = Inr s"
    and g': "g' = (if allDefended s then resolveRound s else s)"
    by (auto simp: playDefend_def split: sum.splits if_splits)
  from defendStep_table_length[OF s] g' show ?thesis by simp
qed


lemma handleClick_Inr:
  assumes "handleClick g me c = Inr g'"
  shows "(phase g = Attack \<and> attacker g = me \<and> playAttack g me c = Inr g')
       \<or> (phase g = Defend \<and> defender g = me
            \<and> (\<exists>i. findIndex (\<lambda>t. defend t = None) (table g) = Some i
                     \<and> playDefend g me i c = Inr g'))
       \<or> (phase g = Defend \<and> defender g \<noteq> me \<and> attacker g = me \<and> addAttack g me c = Inr g')"
  using assms by (auto simp: handleClick_def split: if_splits option.splits)



text \<open>
  Claim C7. Only the attacker adds an attack. A click by a player who is neither the
  attacker nor the defender is ignored in every state. A click by a player other
  than the attacker that is accepted is the defender's defence of the first
  undefended pair, and the table does not grow by it. So whenever a click puts a new
  pair on the table, the player who clicked is the attacker.
\<close>

theorem add_attack_only_by_attacker:
  "(attacker g \<noteq> me \<and> defender g \<noteq> me \<longrightarrow> handleClick g me c = Inl Ignored)
   \<and> (attacker g \<noteq> me \<and> handleClick g me c = Inr g' \<longrightarrow>
        phase g = Defend \<and> defender g = me
        \<and> (\<exists>i. findIndex (\<lambda>t. defend t = None) (table g) = Some i
                 \<and> playDefend g me i c = Inr g')
        \<and> length (table g') \<le> length (table g))
   \<and> (handleClick g me c = Inr g' \<and> length (table g) < length (table g') \<longrightarrow> attacker g = me)"
proof -
  have 1: "attacker g \<noteq> me \<and> defender g \<noteq> me \<longrightarrow> handleClick g me c = Inl Ignored"
    by (simp add: handleClick_def)
  have 2: "attacker g \<noteq> me \<and> handleClick g me c = Inr g' \<longrightarrow>
        phase g = Defend \<and> defender g = me
        \<and> (\<exists>i. findIndex (\<lambda>t. defend t = None) (table g) = Some i
                 \<and> playDefend g me i c = Inr g')
        \<and> length (table g') \<le> length (table g)"
  proof
    assume a: "attacker g \<noteq> me \<and> handleClick g me c = Inr g'"
    with handleClick_Inr[of g me c g']
    have d: "phase g = Defend \<and> defender g = me
        \<and> (\<exists>i. findIndex (\<lambda>t. defend t = None) (table g) = Some i
                 \<and> playDefend g me i c = Inr g')" by blast
    then obtain i where "playDefend g me i c = Inr g'" by blast
    then have "length (table g') \<le> length (table g)" by (rule playDefend_table_length)
    with d show "phase g = Defend \<and> defender g = me
        \<and> (\<exists>i. findIndex (\<lambda>t. defend t = None) (table g) = Some i
                 \<and> playDefend g me i c = Inr g')
        \<and> length (table g') \<le> length (table g)" by blast
  qed
  from 2 have 3: "handleClick g me c = Inr g' \<and> length (table g) < length (table g') \<longrightarrow>
                  attacker g = me"
    by (metis not_less)
  from 1 2 3 show ?thesis by blast
qed

theorem add_attack_only_by_attacker_witness:
  "handleClick threeGame 1 (Card RK Spades) = Inl Ignored
   \<and> handleClick firstAttack 0 (Card R8 Spades) = Inl (Alert ''Cannot beat that card'')
   \<and> length (table (projr (handleClick firstAttack 0 (Card R9 Hearts)))) \<le> 1
   \<and> attacker nearEnd = 0"
proof -
  have h: "attacker threeGame \<noteq> 1 \<and> defender threeGame \<noteq> 1" by code_simp
  have t: "handleClick firstAttack 0 (Card R8 Spades) = Inl (Alert ''Cannot beat that card'')"
    by code_simp
  have d: "attacker firstAttack \<noteq> 0
         \<and> handleClick firstAttack 0 (Card R9 Hearts) =
             Inr (projr (handleClick firstAttack 0 (Card R9 Hearts)))
         \<and> length (table firstAttack) = 1" by code_simp
  have a: "handleClick nearEnd 0 (Card R8 Clubs) = Inr (projr (handleClick nearEnd 0 (Card R8 Clubs)))
         \<and> length (table nearEnd) < length (table (projr (handleClick nearEnd 0 (Card R8 Clubs))))"
    by code_simp
  from add_attack_only_by_attacker [of threeGame 1 "Card RK Spades"] h
  have 1: "handleClick threeGame 1 (Card RK Spades) = Inl Ignored" by blast
  from add_attack_only_by_attacker [of firstAttack 0 "Card R9 Hearts"
      "projr (handleClick firstAttack 0 (Card R9 Hearts))"] d
  have 2: "length (table (projr (handleClick firstAttack 0 (Card R9 Hearts)))) \<le> 1" by metis
  from add_attack_only_by_attacker [of nearEnd 0 "Card R8 Clubs"
      "projr (handleClick nearEnd 0 (Card R8 Clubs))"] a
  have 3: "attacker nearEnd = 0" by blast
  from 1 t 2 3 show ?thesis by blast
qed

end
